theory Spec2Isabelle
  imports Main
begin

section \<open>Strings and glyph tables\<close>

text \<open>
  A JavaScript string is a sequence of UTF-16 code units. Every glyph the converter
  reads or writes lies in the Basic Multilingual Plane, so each glyph is one code unit.
  A string is modelled as the list of its code units, each a natural number.
\<close>

type_synonym jstring = "nat list"

text \<open>The glyphs of the tables and of the currency units, by code unit.\<close>

abbreviation LING :: nat where "LING \<equiv> 38646"   \<comment> \<open>U+96F6, zero\<close>
abbreviation WAN :: nat where "WAN \<equiv> 33836"     \<comment> \<open>U+842C, ten thousand\<close>
abbreviation YI :: nat where "YI \<equiv> 20740"       \<comment> \<open>U+5104, hundred million\<close>
abbreviation ZHAO :: nat where "ZHAO \<equiv> 20806"   \<comment> \<open>U+5146\<close>
abbreviation SHI :: nat where "SHI \<equiv> 25342"     \<comment> \<open>U+62FE, ten\<close>
abbreviation BAI :: nat where "BAI \<equiv> 20336"     \<comment> \<open>U+4F70, hundred\<close>
abbreviation QIAN :: nat where "QIAN \<equiv> 20191"   \<comment> \<open>U+4EDF, thousand\<close>
abbreviation YUAN :: nat where "YUAN \<equiv> 22291"   \<comment> \<open>U+5713\<close>
abbreviation JIAO :: nat where "JIAO \<equiv> 35282"   \<comment> \<open>U+89D2\<close>
abbreviation FEN :: nat where "FEN \<equiv> 20998"     \<comment> \<open>U+5206\<close>
abbreviation ZHENG :: nat where "ZHENG \<equiv> 25972" \<comment> \<open>U+6574\<close>

text \<open>
  Reading a key that a table does not hold gives \<open>undefined\<close> in JavaScript, and
  string concatenation turns it into the nine letters of that word.
\<close>

definition undefinedStr :: jstring where
  "undefinedStr = [117, 110, 100, 101, 102, 105, 110, 101, 100]"

text \<open>\<open>digitMap\<close> of the converter: keys are the digit characters \<open>'0'\<close> (48) to \<open>'9'\<close> (57).\<close>

definition digitMap :: "nat \<Rightarrow> jstring" where
  "digitMap c =
     (if c = 48 then [LING] else if c = 49 then [22777] else if c = 50 then [36019]
      else if c = 51 then [21441] else if c = 52 then [32902] else if c = 53 then [20237]
      else if c = 54 then [38520] else if c = 55 then [26578] else if c = 56 then [25420]
      else if c = 57 then [29590] else undefinedStr)"

text \<open>\<open>digitMap\<close> of the test harness: the glyph of 3 is U+53C3 instead of U+53C1.\<close>

definition digitMap_csv :: "nat \<Rightarrow> jstring" where
  "digitMap_csv c =
     (if c = 48 then [LING] else if c = 49 then [22777] else if c = 50 then [36019]
      else if c = 51 then [21443] else if c = 52 then [32902] else if c = 53 then [20237]
      else if c = 54 then [38520] else if c = 55 then [26578] else if c = 56 then [25420]
      else if c = 57 then [29590] else undefinedStr)"

text \<open>\<open>units[i]\<close> and \<open>bigUnits[i]\<close>: four entries each, \<open>undefined\<close> beyond.\<close>

definition units :: "nat \<Rightarrow> jstring" where
  "units i = (if i = 0 then [] else if i = 1 then [SHI] else if i = 2 then [BAI]
              else if i = 3 then [QIAN] else undefinedStr)"

definition bigUnits :: "nat \<Rightarrow> jstring" where
  "bigUnits i = (if i = 0 then [] else if i = 1 then [WAN] else if i = 2 then [YI]
                 else if i = 3 then [ZHAO] else undefinedStr)"

section \<open>Numbers\<close>

text \<open>
  \<open>convertSection\<close> and \<open>convertInteger\<close> receive non-negative integers below
  \<open>2^53\<close>, where the remainder, the floored division and \<open>toString\<close> of a JavaScript
  Number are exact; such a Number is modelled as a natural number.
  \<open>toString\<close> is the decimal numeral without leading zeros.
\<close>

function toString :: "nat \<Rightarrow> jstring" where
  "toString n = (if n < 10 then [48 + n] else toString (n div 10) @ [48 + n mod 10])"
  by pat_completeness auto
termination
  by (relation "measure id") auto

declare toString.simps [simp del]

section \<open>convertSection\<close>

text \<open>
  The \<open>for\<close> loop of \<open>convertSection\<close>, with its variables \<open>i\<close>, \<open>result\<close> and
  \<open>zeroFlag\<close>. Both source files hold the same text of the function; each reads the
  \<open>digitMap\<close> of its own file, which is the parameter \<open>dm\<close>.
\<close>

function secLoop :: "(nat \<Rightarrow> jstring) \<Rightarrow> jstring \<Rightarrow> nat \<Rightarrow> nat \<Rightarrow> jstring \<Rightarrow> bool \<Rightarrow> jstring" where
  "secLoop dm numStr len i result zeroFlag =
     (if i < len then
        (let digit = numStr ! i; unit = units (len - 1 - i) in
         if digit = 48 then secLoop dm numStr len (i + 1) result True
         else secLoop dm numStr len (i + 1)
                ((if zeroFlag \<and> result \<noteq> [] then result @ [LING] else result) @ dm digit @ unit)
                False)
      else result)"
  by pat_completeness auto
termination
  by (relation "measure (\<lambda>(dm, numStr, len, i, result, zeroFlag). len - i)") auto

declare secLoop.simps [simp del]

definition convertSectionWith :: "(nat \<Rightarrow> jstring) \<Rightarrow> nat \<Rightarrow> jstring" where
  "convertSectionWith dm num =
     (if num = 0 then []
      else let numStr = toString num in secLoop dm numStr (length numStr) 0 [] False)"

definition convertSection :: "nat \<Rightarrow> jstring" where
  "convertSection = convertSectionWith digitMap"

definition convertSection_csv :: "nat \<Rightarrow> jstring" where
  "convertSection_csv = convertSectionWith digitMap_csv"

section \<open>The three cleanup passes\<close>

text \<open>
  \<open>replace(/LING+/g, LING)\<close>: scanning from the left, every maximal run of the zero
  glyph is replaced by one zero glyph.
\<close>

function collapseLing :: "jstring \<Rightarrow> jstring" where
  "collapseLing [] = []"
| "collapseLing (c # cs) =
     (if c = LING then LING # collapseLing (dropWhile (\<lambda>x. x = LING) cs)
      else c # collapseLing cs)"
  by pat_completeness auto
termination
  by (relation "measure length") (auto simp: le_imp_less_Suc length_dropWhile_le)

text \<open>
  \<open>replace(/LING([WAN YI])/g, '$1')\<close>: scanning from the left, a zero glyph directly
  followed by WAN or YI is dropped and the scan goes on behind the pair.
\<close>

fun dropLingBeforeUnit :: "jstring \<Rightarrow> jstring" where
  "dropLingBeforeUnit (c # d # cs) =
     (if c = LING \<and> (d = WAN \<or> d = YI) then d # dropLingBeforeUnit cs
      else c # dropLingBeforeUnit (d # cs))"
| "dropLingBeforeUnit cs = cs"

text \<open>
  \<open>replace(/LING+$/, '')\<close>: the first match starts at the leftmost position from which
  only zero glyphs remain up to the end of the string; it is removed.
\<close>

fun stripTrailingLing :: "jstring \<Rightarrow> jstring" where
  "stripTrailingLing [] = []"
| "stripTrailingLing (c # cs) =
     (if list_all (\<lambda>x. x = LING) (c # cs) then [] else c # stripTrailingLing cs)"

definition cleanup :: "jstring \<Rightarrow> jstring" where
  "cleanup s = stripTrailingLing (dropLingBeforeUnit (collapseLing s))"

section \<open>convertInteger of the converter\<close>

text \<open>The \<open>while\<close> loop, with its variables \<open>num\<close>, \<open>unitIndex\<close> and \<open>result\<close>.\<close>

function convLoop :: "nat \<Rightarrow> nat \<Rightarrow> jstring \<Rightarrow> jstring" where
  "convLoop num unitIndex result =
     (if num > 0 then
        (let section = num mod 10000; nextNum = num div 10000 in
         if section > 0 then
           (let sectionStr = convertSection section in
            if nextNum > 0 \<and> section < 1000
            then convLoop nextNum (unitIndex + 1)
                   ([LING] @ sectionStr @ bigUnits unitIndex @ result)
            else convLoop nextNum (unitIndex + 1) (sectionStr @ bigUnits unitIndex @ result))
         else
           (if nextNum > 0 then convLoop nextNum (unitIndex + 1) (bigUnits unitIndex @ result)
            else convLoop nextNum (unitIndex + 1) result))
      else result)"
  by pat_completeness auto
termination
  by (relation "measure (\<lambda>(num, unitIndex, result). num)") auto

declare convLoop.simps [simp del]

definition convertInteger :: "nat \<Rightarrow> jstring" where
  "convertInteger num = (if num = 0 then [LING] else cleanup (convLoop num 0 []))"

section \<open>convertInteger of the test harness\<close>

text \<open>The first loop pushes the base-10000 groups, least significant first.\<close>

function sectionsLoop :: "nat \<Rightarrow> nat list \<Rightarrow> nat list" where
  "sectionsLoop tempNum sections =
     (if tempNum > 0 then sectionsLoop (tempNum div 10000) (sections @ [tempNum mod 10000])
      else sections)"
  by pat_completeness auto
termination
  by (relation "measure (\<lambda>(tempNum, sections). tempNum)") auto

declare sectionsLoop.simps [simp del]

text \<open>
  The inner loop \<open>for (j = i - 1; j >= 0; j--)\<close>; the argument is \<open>j + 1\<close>, so that
  \<open>0\<close> is the exit.
\<close>

fun hasNonZeroAfter :: "nat list \<Rightarrow> nat \<Rightarrow> bool" where
  "hasNonZeroAfter sections 0 = False"
| "hasNonZeroAfter sections (Suc j) =
     (if sections ! j > 0 then True else hasNonZeroAfter sections j)"

text \<open>
  The outer loop \<open>for (i = sections.length - 1; i >= 0; i--)\<close>; the argument is
  \<open>i + 1\<close>. Every index read is below the length of \<open>sections\<close>.
\<close>

fun csvLoop :: "nat list \<Rightarrow> nat \<Rightarrow> jstring \<Rightarrow> jstring" where
  "csvLoop sections 0 result = result"
| "csvLoop sections (Suc i) result =
     (let section = sections ! i; sectionStr = convertSection_csv section in
      if section > 0 then
        csvLoop sections i
          ((if i < length sections - 1 \<and> section < 1000 \<and> result \<noteq> []
            then result @ [LING] else result) @ sectionStr @ bigUnits i)
      else if i > 0 \<and> result \<noteq> [] then
        (if hasNonZeroAfter sections i \<and> i > 0 \<and> sections ! (i - 1) > 0
            \<and> sections ! (i - 1) < 1000
         then csvLoop sections i (result @ [LING])
         else csvLoop sections i result)
      else csvLoop sections i result)"

definition convertInteger_csv :: "nat \<Rightarrow> jstring" where
  "convertInteger_csv num =
     (if num = 0 then [LING]
      else let sections = sectionsLoop num [] in
           cleanup (csvLoop sections (length sections) []))"

section \<open>convertToChequeFormat\<close>

text \<open>
  \<open>replace(/[,\s]/g, '')\<close> deletes every comma (44) and every code unit of the class
  \<open>\s\<close>: tab, line feed, vertical tab, form feed, carriage return, space, U+00A0,
  U+1680, U+2000 to U+200A, U+2028, U+2029, U+202F, U+205F, U+3000 and U+FEFF.
\<close>

definition isSpace :: "nat \<Rightarrow> bool" where
  "isSpace c = ((9 \<le> c \<and> c \<le> 13) \<or> c = 32 \<or> c = 160 \<or> c = 5760
                \<or> (8192 \<le> c \<and> c \<le> 8202) \<or> c = 8232 \<or> c = 8233 \<or> c = 8239
                \<or> c = 8287 \<or> c = 12288 \<or> c = 65279)"

definition stripSeparators :: "jstring \<Rightarrow> jstring" where
  "stripSeparators s = filter (\<lambda>c. \<not> (c = 44 \<or> isSpace c)) s"

text \<open>\<open>\d\<close> without the unicode flag is one of \<open>'0'\<close> to \<open>'9'\<close>.\<close>

definition isDigit :: "nat \<Rightarrow> bool" where
  "isDigit c = (48 \<le> c \<and> c \<le> 57)"

text \<open>
  The test \<open>/^-?\d+(\.\d{0,2})?$/\<close>: an optional minus sign (45), one or more digits,
  then either the end or a dot (46) with at most two digits up to the end. Digits and
  the dot are disjoint, so the greedy run of digits is the only way to match.
\<close>

definition matchesAmount :: "jstring \<Rightarrow> bool" where
  "matchesAmount s =
     (let body = (if s \<noteq> [] \<and> hd s = 45 then tl s else s);
          intDigits = takeWhile isDigit body;
          rest = dropWhile isDigit body
      in intDigits \<noteq> [] \<and>
         (rest = [] \<or> (hd rest = 46 \<and> length (tl rest) \<le> 2 \<and> list_all isDigit (tl rest))))"

text \<open>The value of a string of digits, most significant first.\<close>

definition digitsValue :: "jstring \<Rightarrow> nat" where
  "digitsValue ds = foldl (\<lambda>a c. 10 * a + (c - 48)) 0 ds"

text \<open>
  \<open>parseFloat\<close> is applied only to strings that pass the pattern, whose exact value is
  a whole number of hundredths. The model returns that number of hundredths, signed,
  instead of the nearest double. The comparisons made on the result are decided
  alike by both: rounding to the nearest double is monotone and keeps \<open>0\<close>,
  \<open>100000\<close> and \<open>10^12\<close>, which are doubles; a nonzero value of this form is at least
  one hundredth in magnitude and does not round to zero; the literal
  \<open>999999999999.99\<close> denotes the double nearest to it, which lies below \<open>10^12\<close>.
  So \<open>num < 0\<close> holds when the hundredths are negative, \<open>num === 0\<close> when they are
  zero (the double is then \<open>0\<close> or \<open>-0\<close>, and \<open>-0 < 0\<close> is false),
  \<open>num > 999999999999.99\<close> when they exceed \<open>99999999999999\<close>, and
  \<open>num >= 100000\<close> when they are at least \<open>10000000\<close>.
\<close>

definition parseFloat_x100 :: "jstring \<Rightarrow> int" where
  "parseFloat_x100 s =
     (let neg = (s \<noteq> [] \<and> hd s = 45);
          body = (if neg then tl s else s);
          intDigits = takeWhile isDigit body;
          rest = dropWhile isDigit body;
          fracDigits = take 2 ((if rest = [] then [] else tl rest) @ [48, 48]);
          magnitude = int (digitsValue intDigits * 100 + digitsValue fracDigits)
      in if neg then - magnitude else magnitude)"

text \<open>
  \<open>numStr.split('.')\<close>: \<open>parts[0]\<close> is the text before the first dot, \<open>parts[1]\<close> the
  text between the first dot and the next one; without a dot \<open>parts[1]\<close> is
  \<open>undefined\<close> and \<open>parts[1] || ''\<close> is the empty string.
\<close>

definition parts0 :: "jstring \<Rightarrow> jstring" where
  "parts0 s = takeWhile (\<lambda>c. c \<noteq> 46) s"

definition parts1 :: "jstring \<Rightarrow> jstring" where
  "parts1 s = (let r = dropWhile (\<lambda>c. c \<noteq> 46) s in
               if r = [] then [] else takeWhile (\<lambda>c. c \<noteq> 46) (tl r))"

text \<open>
  \<open>parseInt\<close> reads the leading digits. Where it is called, \<open>parts[0]\<close> is a
  non-empty string of digits (lemma \<open>parseInt_argument\<close> below) of value at most
  \<open>999999999999\<close>, so the result is an exact non-negative integer.
\<close>

definition parseInt :: "jstring \<Rightarrow> nat" where
  "parseInt s = digitsValue (takeWhile isDigit s)"

text \<open>\<open>while (decimalPart.length < 2) decimalPart += '0'\<close>\<close>

function padLoop :: "jstring \<Rightarrow> jstring" where
  "padLoop decimalPart =
     (if length decimalPart < 2 then padLoop (decimalPart @ [48]) else decimalPart)"
  by pat_completeness auto
termination
  by (relation "measure (\<lambda>decimalPart. 2 - length decimalPart)") auto

declare padLoop.simps [simp del]

text \<open>The fixed answers.\<close>

definition MSG_EMPTY :: jstring where
  "MSG_EMPTY = [35531, 36664, 20837, 37329, 38989]"

definition MSG_FORMAT :: jstring where
  "MSG_FORMAT = [36664, 20837, 26684, 24335, 37679, 35492, 65288, 35531, 36664, 20837,
                 26377, 25928, 25976, 23383, 65289]"

definition MSG_NEGATIVE :: jstring where
  "MSG_NEGATIVE = [19981, 25903, 25345, 36000, 25976]"

definition MSG_TOO_LARGE :: jstring where
  "MSG_TOO_LARGE = [37329, 38989, 36942, 22823, 65288, 26368, 22823, 25903, 25345, 32,
                    57, 57, 57, 44, 57, 57, 57, 44, 57, 57, 57, 44, 57, 57, 57, 46, 57, 57,
                    65289]"

definition MSG_TOO_LARGE_csv :: jstring where
  "MSG_TOO_LARGE_csv = [36229, 36942, 26368, 22823, 25903, 25345, 37329, 38989, 65288,
                        57, 57, 57, 57, 57, 46, 57, 57, 65289]"

definition ZERO_AMOUNT :: jstring where
  "ZERO_AMOUNT = [LING, YUAN, ZHENG]"

text \<open>The converter. A present fractional part of zeros appends nothing.\<close>

definition convertToChequeFormat :: "jstring \<Rightarrow> jstring" where
  "convertToChequeFormat input =
     (let numStr = stripSeparators input in
      if numStr = [] then MSG_EMPTY
      else if \<not> matchesAmount numStr then MSG_FORMAT
      else let num = parseFloat_x100 numStr in
      if num < 0 then MSG_NEGATIVE
      else if num > 99999999999999 then MSG_TOO_LARGE
      else if num = 0 then ZERO_AMOUNT
      else let integerPart = parseInt (parts0 numStr);
               decimalPart = parts1 numStr;
               result = convertInteger integerPart @ [YUAN] in
      if decimalPart \<noteq> [] then
        (let padded = padLoop decimalPart; jiao = padded ! 0; fen = padded ! 1 in
         if jiao \<noteq> 48 then
           (if fen \<noteq> 48 then result @ digitMap jiao @ [JIAO] @ digitMap fen @ [FEN]
            else result @ digitMap jiao @ [JIAO])
         else
           (if fen \<noteq> 48 then result @ [LING] @ digitMap fen @ [FEN] else result))
      else result @ [ZHENG])"

text \<open>
  The copy in the test harness: its own limit and message, its own \<open>convertInteger\<close>,
  and a branch for a fractional part of zeros.
\<close>

definition convertToChequeFormat_csv :: "jstring \<Rightarrow> jstring" where
  "convertToChequeFormat_csv input =
     (let numStr = stripSeparators input in
      if numStr = [] then MSG_EMPTY
      else if \<not> matchesAmount numStr then MSG_FORMAT
      else let num = parseFloat_x100 numStr in
      if num < 0 then MSG_NEGATIVE
      else if num \<ge> 10000000 then MSG_TOO_LARGE_csv
      else if num = 0 then ZERO_AMOUNT
      else let integerPart = parseInt (parts0 numStr);
               decimalPart = parts1 numStr;
               result = convertInteger_csv integerPart @ [YUAN] in
      if decimalPart \<noteq> [] then
        (let padded = padLoop decimalPart; jiao = padded ! 0; fen = padded ! 1 in
         if jiao = 48 \<and> fen = 48 then result @ [ZHENG]
         else if jiao \<noteq> 48 then
           (if fen \<noteq> 48 then result @ digitMap_csv jiao @ [JIAO] @ digitMap_csv fen @ [FEN]
            else result @ digitMap_csv jiao @ [JIAO])
         else
           (if fen \<noteq> 48 then result @ [LING] @ digitMap_csv fen @ [FEN] else result))
      else result @ [ZHENG])"

section \<open>Predicates on output strings\<close>

text \<open>No two neighbouring zero glyphs.\<close>

fun noDoubleLing :: "jstring \<Rightarrow> bool" where
  "noDoubleLing (c # d # cs) = (\<not> (c = LING \<and> d = LING) \<and> noDoubleLing (d # cs))"
| "noDoubleLing cs = True"

text \<open>No zero glyph directly before WAN or YI.\<close>

fun noLingBeforeUnit :: "jstring \<Rightarrow> bool" where
  "noLingBeforeUnit (c # d # cs) =
     (\<not> (c = LING \<and> (d = WAN \<or> d = YI)) \<and> noLingBeforeUnit (d # cs))"
| "noLingBeforeUnit cs = True"

text \<open>The last glyph is the zero glyph.\<close>

definition endsWithLing :: "jstring \<Rightarrow> bool" where
  "endsWithLing s = (s \<noteq> [] \<and> last s = LING)"

text \<open>
  What the loop of \<open>convertSection\<close> keeps: the text so far is clean, does not
  start with the zero glyph and holds neither WAN nor YI.
\<close>

definition sectionText :: "jstring \<Rightarrow> bool" where
  "sectionText s = (noDoubleLing s \<and> \<not> endsWithLing s \<and> (s = [] \<or> hd s \<noteq> LING)
                    \<and> WAN \<notin> set s \<and> YI \<notin> set s)"

text \<open>\<open>s\<close> ends with the string \<open>t\<close>.\<close>

definition endsWith :: "jstring \<Rightarrow> jstring \<Rightarrow> bool" where
  "endsWith s t = (length t \<le> length s \<and> drop (length s - length t) s = t)"

section \<open>The text of one group\<close>

text \<open>
  What one pass of the \<open>while\<close> loop of the converter's \<open>convertInteger\<close> puts in
  front of \<open>result\<close>, for the value \<open>num\<close> the pass starts with (lemma
  \<open>convLoop_step\<close> below).
\<close>

definition groupText :: "nat \<Rightarrow> nat \<Rightarrow> jstring" where
  "groupText num unitIndex =
     (let section = num mod 10000; nextNum = num div 10000 in
      if section > 0 then
        (if nextNum > 0 \<and> section < 1000
         then [LING] @ convertSection section @ bigUnits unitIndex
         else convertSection section @ bigUnits unitIndex)
      else (if nextNum > 0 then bigUnits unitIndex else []))"

text \<open>
  The text of the \<open>k\<close> lowest groups of \<open>num\<close>, the most significant of them
  first.
\<close>

fun textBelow :: "nat \<Rightarrow> nat \<Rightarrow> jstring" where
  "textBelow num 0 = []"
| "textBelow num (Suc k) = groupText (num div 10000 ^ k) k @ textBelow num k"

text \<open>
  A text on which the three cleanup passes have nothing to do, and which does not start
  with the zero glyph.
\<close>

definition cleanText :: "jstring \<Rightarrow> bool" where
  "cleanText s = (noDoubleLing s \<and> noLingBeforeUnit s \<and> \<not> endsWithLing s
                  \<and> (s = [] \<or> hd s \<noteq> LING))"

section \<open>The text of the groups in the test harness\<close>

text \<open>
  What the \<open>convertInteger\<close> of the test harness leaves in its result for one group:
  \<open>num\<close> is the value from this group upwards (lemma \<open>convertInteger_csv_text\<close>
  below). A group that is entirely zero leaves nothing.
\<close>

definition groupText_csv :: "nat \<Rightarrow> nat \<Rightarrow> jstring" where
  "groupText_csv num unitIndex =
     (let section = num mod 10000; higher = num div 10000 in
      if section > 0 then
        (if higher > 0 \<and> section < 1000 then [LING] else [])
          @ convertSection_csv section @ bigUnits unitIndex
      else [])"

text \<open>
  The text of the \<open>n\<close> groups \<open>lo\<close>, ..., \<open>lo + n - 1\<close> of \<open>num\<close>, the most
  significant of them first.
\<close>

fun textGroups_csv :: "nat \<Rightarrow> nat \<Rightarrow> nat \<Rightarrow> jstring" where
  "textGroups_csv num lo 0 = []"
| "textGroups_csv num lo (Suc n) =
     groupText_csv (num div 10000 ^ (lo + n)) (lo + n) @ textGroups_csv num lo n"

section \<open>A reader of the answers\<close>

text \<open>
  To tell two answers apart, a reader that scans an answer from the left and returns the
  amount it denotes, in hundredths. It is not part of the repository; the theorem on
  distinct amounts uses it as the inverse of the converter. Its state is the amount read
  so far in hundredths, the value of the finished groups, the value of the current group
  and the last digit read.
\<close>

definition glyphDigit :: "nat \<Rightarrow> nat option" where
  "glyphDigit g =
     (if g = LING then Some 0 else if g = 22777 then Some 1 else if g = 36019 then Some 2
      else if g = 21441 then Some 3 else if g = 32902 then Some 4 else if g = 20237 then Some 5
      else if g = 38520 then Some 6 else if g = 26578 then Some 7 else if g = 25420 then Some 8
      else if g = 29590 then Some 9 else None)"

fun readStep :: "nat \<times> nat \<times> nat \<times> nat \<Rightarrow> nat \<Rightarrow> nat \<times> nat \<times> nat \<times> nat" where
  "readStep (h, t, a, c) g =
     (if g = SHI then (h, t, a + c * 10, 0)
      else if g = BAI then (h, t, a + c * 100, 0)
      else if g = QIAN then (h, t, a + c * 1000, 0)
      else if g = WAN then (h, t + (a + c) * 10000, 0, 0)
      else if g = YI then (h, t + (a + c) * 100000000, 0, 0)
      else if g = ZHAO then (h, t + (a + c) * 1000000000000, 0, 0)
      else if g = YUAN then (h + (t + a + c) * 100, 0, 0, 0)
      else if g = JIAO then (h + c * 10, t, a, 0)
      else if g = FEN then (h + c, t, a, 0)
      else (case glyphDigit g of Some d \<Rightarrow> (h, t, a, d) | None \<Rightarrow> (h, t, a, c)))"

definition readAmount :: "jstring \<Rightarrow> nat" where
  "readAmount s = fst (foldl readStep (0, 0, 0, 0) s)"

section \<open>Evaluation on concrete inputs\<close>

text \<open>The equations that evaluate the model on a numeral or on an explicit string.\<close>

lemmas eval_simps = convertToChequeFormat_def convertToChequeFormat_csv_def stripSeparators_def isSpace_def
  matchesAmount_def isDigit_def parseFloat_x100_def digitsValue_def parts0_def parts1_def parseInt_def
  padLoop.simps convertInteger_def convertInteger_csv_def convLoop.simps sectionsLoop.simps
  convertSection_def convertSection_csv_def convertSectionWith_def toString.simps secLoop.simps
  cleanup_def digitMap_def digitMap_csv_def units_def bigUnits_def Let_def
  MSG_EMPTY_def MSG_FORMAT_def MSG_NEGATIVE_def MSG_TOO_LARGE_def MSG_TOO_LARGE_csv_def ZERO_AMOUNT_def

section \<open>Properties of the cleanup passes\<close>

lemma noDoubleLing_Cons:
  "noDoubleLing (c # ys) = ((ys = [] \<or> c \<noteq> LING \<or> hd ys \<noteq> LING) \<and> noDoubleLing ys)"
  by (cases ys) auto

lemma noLingBeforeUnit_Cons:
  "noLingBeforeUnit (c # ys) =
     ((ys = [] \<or> c \<noteq> LING \<or> (hd ys \<noteq> WAN \<and> hd ys \<noteq> YI)) \<and> noLingBeforeUnit ys)"
  by (cases ys) auto

lemma collapseLing_hd: "xs \<noteq> [] \<Longrightarrow> collapseLing xs \<noteq> [] \<and> hd (collapseLing xs) = hd xs"
  by (cases xs) auto

lemma dropWhile_Ling_hd:
  "dropWhile (\<lambda>x. x = LING) cs \<noteq> [] \<Longrightarrow> hd (dropWhile (\<lambda>x. x = LING) cs) \<noteq> LING"
  by (induction cs) auto

lemma collapseLing_noDouble: "noDoubleLing (collapseLing s)"
proof (induction s rule: collapseLing.induct)
  case 1
  show ?case by simp
next
  case (2 c cs)
  show ?case
  proof (cases "c = LING")
    case True
    let ?r = "dropWhile (\<lambda>x. x = LING) cs"
    have "noDoubleLing (collapseLing ?r)" using 2(1) True by simp
    moreover have "collapseLing ?r = [] \<or> hd (collapseLing ?r) \<noteq> LING"
    proof (cases "?r = []")
      case True
      show ?thesis unfolding True by simp
    next
      case False
      then have "hd ?r \<noteq> LING" by (rule dropWhile_Ling_hd)
      then show ?thesis using collapseLing_hd [OF False] by simp
    qed
    ultimately show ?thesis using True by (simp add: noDoubleLing_Cons)
  next
    case False
    then show ?thesis using 2(2) by (simp add: noDoubleLing_Cons)
  qed
qed

lemma collapseLing_id: "noDoubleLing s \<Longrightarrow> collapseLing s = s"
proof (induction s)
  case Nil
  show ?case by simp
next
  case (Cons c cs)
  then have nd: "noDoubleLing cs" and hd: "cs = [] \<or> c \<noteq> LING \<or> hd cs \<noteq> LING"
    by (auto simp: noDoubleLing_Cons)
  show ?case
  proof (cases "c = LING")
    case True
    with hd have "dropWhile (\<lambda>x. x = LING) cs = cs" by (cases cs) auto
    then show ?thesis using True Cons.IH nd by simp
  next
    case False
    then show ?thesis using Cons.IH nd by simp
  qed
qed

lemma dropLingBeforeUnit_Cons_other:
  "d \<noteq> LING \<Longrightarrow> dropLingBeforeUnit (d # cs) = d # dropLingBeforeUnit cs"
  by (cases cs) auto

lemma dropLingBeforeUnit_post:
  "noDoubleLing s \<Longrightarrow> noDoubleLing (dropLingBeforeUnit s) \<and> noLingBeforeUnit (dropLingBeforeUnit s)"
proof (induction s rule: dropLingBeforeUnit.induct)
  case (1 c d cs)
  show ?case
  proof (cases "c = LING \<and> (d = WAN \<or> d = YI)")
    case True
    then have "noDoubleLing cs" using 1(3) by (auto simp: noDoubleLing_Cons)
    then show ?thesis using True 1(1) by (auto simp: noDoubleLing_Cons noLingBeforeUnit_Cons)
  next
    case False
    have nd: "noDoubleLing (d # cs)" using 1(3) by simp
    have ih: "noDoubleLing (dropLingBeforeUnit (d # cs)) \<and> noLingBeforeUnit (dropLingBeforeUnit (d # cs))"
      using 1(2) False nd by simp
    show ?thesis
    proof (cases "c = LING")
      case True
      then have "d \<noteq> LING" using 1(3) by simp
      then have "dropLingBeforeUnit (d # cs) = d # dropLingBeforeUnit cs"
        by (rule dropLingBeforeUnit_Cons_other)
      then show ?thesis using ih False True \<open>d \<noteq> LING\<close>
        by (simp add: noDoubleLing_Cons noLingBeforeUnit_Cons)
    next
      case c: False
      then show ?thesis using ih False by (simp add: noDoubleLing_Cons noLingBeforeUnit_Cons)
    qed
  qed
qed simp_all

lemma dropLingBeforeUnit_id: "noLingBeforeUnit s \<Longrightarrow> dropLingBeforeUnit s = s"
proof (induction s rule: dropLingBeforeUnit.induct)
  case (1 c d cs)
  then have no: "\<not> (c = LING \<and> (d = WAN \<or> d = YI))" and rest: "noLingBeforeUnit (d # cs)"
    by simp_all
  have "dropLingBeforeUnit (d # cs) = d # cs" by (rule 1(2) [OF no rest])
  then show ?case using no by auto
qed simp_all

lemma stripTrailingLing_Nil_iff: "stripTrailingLing s = [] \<longleftrightarrow> list_all (\<lambda>x. x = LING) s"
  by (cases s) auto

lemma stripTrailingLing_hd: "stripTrailingLing s \<noteq> [] \<Longrightarrow> hd (stripTrailingLing s) = hd s"
  by (cases s) (auto split: if_splits)

lemma stripTrailingLing_noDouble: "noDoubleLing s \<Longrightarrow> noDoubleLing (stripTrailingLing s)"
proof (induction s)
  case Nil
  show ?case by simp
next
  case (Cons c cs)
  then show ?case
    using stripTrailingLing_hd [of cs]
    by (cases "stripTrailingLing cs = []") (auto simp: noDoubleLing_Cons)
qed

lemma stripTrailingLing_noLingBeforeUnit:
  "noLingBeforeUnit s \<Longrightarrow> noLingBeforeUnit (stripTrailingLing s)"
proof (induction s)
  case Nil
  show ?case by simp
next
  case (Cons c cs)
  then show ?case
    using stripTrailingLing_hd [of cs]
    by (cases "stripTrailingLing cs = []") (auto simp: noLingBeforeUnit_Cons)
qed

lemma stripTrailingLing_post: "\<not> endsWithLing (stripTrailingLing s)"
proof (induction s)
  case Nil
  show ?case by (simp add: endsWithLing_def)
next
  case (Cons c cs)
  show ?case
  proof (cases "list_all (\<lambda>x. x = LING) (c # cs)")
    case True
    then show ?thesis by (simp add: endsWithLing_def)
  next
    case False
    show ?thesis
    proof (cases "stripTrailingLing cs = []")
      case True
      then have "list_all (\<lambda>x. x = LING) cs" by (simp add: stripTrailingLing_Nil_iff)
      with False have "c \<noteq> LING" by simp
      then show ?thesis using False True by (simp add: endsWithLing_def)
    next
      case ne: False
      then show ?thesis using False Cons.IH by (simp add: endsWithLing_def)
    qed
  qed
qed

lemma list_all_last: "list_all P xs \<Longrightarrow> xs \<noteq> [] \<Longrightarrow> P (last xs)"
  by (induction xs) auto

lemma stripTrailingLing_id: "\<not> endsWithLing s \<Longrightarrow> stripTrailingLing s = s"
proof (induction s)
  case Nil
  show ?case by simp
next
  case (Cons c cs)
  have notall: "\<not> list_all (\<lambda>x. x = LING) (c # cs)"
  proof
    assume "list_all (\<lambda>x. x = LING) (c # cs)"
    then have "last (c # cs) = LING" by (rule list_all_last) simp
    with Cons.prems show False by (simp add: endsWithLing_def)
  qed
  have "\<not> endsWithLing cs" using Cons.prems by (auto simp: endsWithLing_def)
  then show ?case using notall Cons.IH by simp
qed

lemma cleanup_post:
  "noDoubleLing (cleanup s) \<and> noLingBeforeUnit (cleanup s) \<and> \<not> endsWithLing (cleanup s)"
  using collapseLing_noDouble [of s] dropLingBeforeUnit_post [of "collapseLing s"]
  by (simp add: cleanup_def stripTrailingLing_noDouble stripTrailingLing_noLingBeforeUnit
      stripTrailingLing_post)

lemma cleanup_id:
  "noDoubleLing s \<Longrightarrow> noLingBeforeUnit s \<Longrightarrow> \<not> endsWithLing s \<Longrightarrow> cleanup s = s"
  by (simp add: cleanup_def collapseLing_id dropLingBeforeUnit_id stripTrailingLing_id)

text \<open>
  C7: the three cleanup passes, applied in order as one function on strings, are
  idempotent: for every string, cleaning the cleaned string changes nothing.
\<close>

theorem cleanup_idempotent: "cleanup (cleanup s) = cleanup s"
  using cleanup_post [of s] by (simp add: cleanup_id)


section \<open>Properties of convertSection\<close>

lemma endsWithLing_append:
  "endsWithLing (a @ b) = (if b = [] then endsWithLing a else endsWithLing b)"
  by (simp add: endsWithLing_def)

lemma endsWithLing_Cons:
  "endsWithLing (c # s) = (if s = [] then c = LING else endsWithLing s)"
  by (simp add: endsWithLing_def)

lemma noDoubleLing_append:
  "noDoubleLing (a @ b) \<longleftrightarrow>
     noDoubleLing a \<and> noDoubleLing b \<and> \<not> (endsWithLing a \<and> b \<noteq> [] \<and> hd b = LING)"
proof (induction a)
  case Nil
  show ?case by (simp add: endsWithLing_def)
next
  case (Cons c cs)
  show ?case
  proof (cases cs)
    case Nil
    then show ?thesis by (cases b) (auto simp: endsWithLing_def)
  next
    case (Cons d ds)
    then show ?thesis using Cons.IH by (auto simp: endsWithLing_def)
  qed
qed

lemma noLingBeforeUnit_append:
  "noLingBeforeUnit (a @ b) \<longleftrightarrow>
     noLingBeforeUnit a \<and> noLingBeforeUnit b \<and>
     \<not> (endsWithLing a \<and> b \<noteq> [] \<and> (hd b = WAN \<or> hd b = YI))"
proof (induction a)
  case Nil
  show ?case by (simp add: endsWithLing_def)
next
  case (Cons c cs)
  show ?case
  proof (cases cs)
    case Nil
    then show ?thesis by (cases b) (auto simp: endsWithLing_def)
  next
    case (Cons d ds)
    then show ?thesis using Cons.IH by (auto simp: endsWithLing_def)
  qed
qed

lemma noLing_clean:
  "LING \<notin> set s \<Longrightarrow> noDoubleLing s \<and> noLingBeforeUnit s \<and> \<not> endsWithLing s"
proof (induction s)
  case Nil
  show ?case by (simp add: endsWithLing_def)
next
  case (Cons c cs)
  then show ?case by (cases cs) (auto simp: endsWithLing_def)
qed

lemma units_noLing: "LING \<notin> set (units k)"
  by (simp add: units_def undefinedStr_def)

lemma units_noBig: "WAN \<notin> set (units k) \<and> YI \<notin> set (units k)"
  by (simp add: units_def undefinedStr_def)

lemma digitMap_nonzero:
  "c \<noteq> 48 \<Longrightarrow> digitMap c \<noteq> [] \<and> LING \<notin> set (digitMap c)"
  by (simp add: digitMap_def undefinedStr_def)

lemma digitMap_csv_nonzero:
  "c \<noteq> 48 \<Longrightarrow> digitMap_csv c \<noteq> [] \<and> LING \<notin> set (digitMap_csv c)"
  by (simp add: digitMap_csv_def undefinedStr_def)

lemma digitMap_noBig: "WAN \<notin> set (digitMap c) \<and> YI \<notin> set (digitMap c)"
  by (simp add: digitMap_def undefinedStr_def)

lemma digitMap_csv_noBig: "WAN \<notin> set (digitMap_csv c) \<and> YI \<notin> set (digitMap_csv c)"
  by (simp add: digitMap_csv_def undefinedStr_def)

lemma sectionText_step:
  assumes st: "sectionText result"
    and seg: "seg \<noteq> []" "LING \<notin> set seg" "WAN \<notin> set seg" "YI \<notin> set seg"
  shows "sectionText ((if zeroFlag \<and> result \<noteq> [] then result @ [LING] else result) @ seg)"
proof -
  have c: "noDoubleLing seg" "\<not> endsWithLing seg" using noLing_clean [OF seg(2)] by simp_all
  have h: "hd seg \<noteq> LING" using seg(1,2) by (cases seg) auto
  have s: "seg = hd seg # tl seg" using seg(1) by simp
  show ?thesis
  proof (cases "result = []")
    case True
    then show ?thesis using seg c h by (simp add: sectionText_def)
  next
    case False
    have e: "\<not> endsWithLing result" "noDoubleLing result" "hd result \<noteq> LING"
      using st False by (simp_all add: sectionText_def)
    have l: "last result \<noteq> LING" using e(1) False by (simp add: endsWithLing_def)
    have m: "WAN \<notin> set result" "YI \<notin> set result" using st by (simp_all add: sectionText_def)
    have n: "noDoubleLing [LING]" "\<not> endsWithLing (result @ [LING] @ seg)"
      "\<not> endsWithLing (result @ seg)"
      using c seg(1) by (simp_all add: endsWithLing_append endsWithLing_Cons)
    have "noDoubleLing (result @ ([LING] @ seg))"
      unfolding noDoubleLing_append [of result] noDoubleLing_append [of "[LING]"]
      using e c h l seg(1) by (simp add: endsWithLing_def)
    moreover have "noDoubleLing (result @ seg)"
      unfolding noDoubleLing_append [of result] using e c h by simp
    ultimately show ?thesis using False e m n seg by (simp add: sectionText_def)
  qed
qed

lemma secLoop_sectionText:
  "(\<And>c. c \<noteq> 48 \<Longrightarrow> dm c \<noteq> [] \<and> LING \<notin> set (dm c)) \<Longrightarrow>
   (\<And>c. WAN \<notin> set (dm c) \<and> YI \<notin> set (dm c)) \<Longrightarrow>
   sectionText result \<Longrightarrow> sectionText (secLoop dm numStr len i result zeroFlag)"
proof (induction dm numStr len i result zeroFlag rule: secLoop.induct)
  case (1 dm numStr len i result zeroFlag)
  note dm = 1(3) and big = 1(4) and st = 1(5)
  show ?case
  proof (cases "i < len")
    case False
    then show ?thesis using st by (simp add: secLoop.simps)
  next
    case True
    show ?thesis
    proof (cases "numStr ! i = 48")
      case z: True
      have "sectionText (secLoop dm numStr len (i + 1) result True)"
        using 1(1) [OF True refl refl z dm big st] by simp
      then show ?thesis using True z by (subst secLoop.simps) simp
    next
      case nz: False
      let ?seg = "dm (numStr ! i) @ units (len - 1 - i)"
      let ?r = "(if zeroFlag \<and> result \<noteq> [] then result @ [LING] else result) @ ?seg"
      have seg: "?seg \<noteq> []" "LING \<notin> set ?seg" "WAN \<notin> set ?seg" "YI \<notin> set ?seg"
        using dm [OF nz] big [of "numStr ! i"]
          units_noLing [of "len - 1 - i"] units_noBig [of "len - 1 - i"]
        by auto
      have "sectionText ?r" by (rule sectionText_step [OF st seg])
      then have "sectionText (secLoop dm numStr len (i + 1) ?r False)"
        using 1(2) [OF True refl refl nz dm big] by simp
      then show ?thesis using True nz by (subst secLoop.simps) (simp add: Let_def)
    qed
  qed
qed

lemma sectionText_Nil: "sectionText []"
  by (simp add: sectionText_def endsWithLing_def)

lemma convertSectionWith_sectionText:
  assumes "\<And>c. c \<noteq> 48 \<Longrightarrow> dm c \<noteq> [] \<and> LING \<notin> set (dm c)"
    and "\<And>c. WAN \<notin> set (dm c) \<and> YI \<notin> set (dm c)"
  shows "sectionText (convertSectionWith dm num)"
  unfolding convertSectionWith_def Let_def
  using secLoop_sectionText [of dm "[]", OF assms sectionText_Nil] sectionText_Nil by simp

lemma convertSection_sectionText: "sectionText (convertSection num)"
  unfolding convertSection_def
  by (rule convertSectionWith_sectionText) (simp_all add: digitMap_nonzero digitMap_noBig)

lemma convertSection_csv_sectionText: "sectionText (convertSection_csv num)"
  unfolding convertSection_csv_def
  by (rule convertSectionWith_sectionText) (simp_all add: digitMap_csv_nonzero digitMap_csv_noBig)

lemma convertSection_zero: "convertSection 0 = []" "convertSection_csv 0 = []"
  by (simp_all add: convertSection_def convertSection_csv_def convertSectionWith_def)

text \<open>
  C8: \<open>convertSection(0)\<close> is the empty string, and for every \<open>num\<close> from 1 to
  9999 the result has no two neighbouring zero glyphs and does not end with the zero
  glyph. The same holds for the copy in the test harness.
\<close>

theorem convertSection_shape:
  "num \<le> 9999 \<Longrightarrow>
     convertSection 0 = [] \<and> convertSection_csv 0 = [] \<and>
     (0 < num \<longrightarrow>
        noDoubleLing (convertSection num) \<and> \<not> endsWithLing (convertSection num) \<and>
        noDoubleLing (convertSection_csv num) \<and> \<not> endsWithLing (convertSection_csv num))"
  using convertSection_sectionText [of num] convertSection_csv_sectionText [of num]
  by (simp add: sectionText_def convertSection_zero)

theorem convertSection_shape_witness:
  "(1001::nat) \<le> 9999 \<and> 0 < (1001::nat) \<and> convertSection 1001 = [22777, QIAN, LING, 22777] \<and>
   noDoubleLing (convertSection 1001) \<and> \<not> endsWithLing (convertSection 1001) \<and>
   noDoubleLing (convertSection_csv 1001) \<and> \<not> endsWithLing (convertSection_csv 1001)"
  using convertSection_shape [of 1001] by (simp add: eval_simps)

section \<open>Integer amounts\<close>

text \<open>The decimal numeral of a number passes the pattern and is read back exactly.\<close>

lemma endsWith_append: "endsWith (a @ t) t"
  by (simp add: endsWith_def)

lemma toString_digits: "list_all isDigit (toString n) \<and> toString n \<noteq> []"
proof (induction n rule: toString.induct)
  case (1 n)
  show ?case
  proof (cases "n < 10")
    case True
    then show ?thesis by (subst toString.simps, subst toString.simps) (simp add: isDigit_def)
  next
    case False
    have "n mod 10 < 10" by simp
    then have "isDigit (48 + n mod 10)" unfolding isDigit_def by linarith
    then show ?thesis using 1 [OF False] False
      by (subst toString.simps, subst (2) toString.simps) simp
  qed
qed

lemma digitsValue_snoc: "digitsValue (ds @ [c]) = 10 * digitsValue ds + (c - 48)"
  by (simp add: digitsValue_def)

lemma digitsValue_toString: "digitsValue (toString n) = n"
proof (induction n rule: toString.induct)
  case (1 n)
  show ?case
  proof (cases "n < 10")
    case True
    then show ?thesis by (subst toString.simps) (simp add: digitsValue_def)
  next
    case False
    then show ?thesis using 1 [OF False]
      by (subst toString.simps) (simp add: digitsValue_snoc)
  qed
qed

lemma isDigit_plain: "isDigit c \<Longrightarrow> \<not> (c = 44 \<or> isSpace c) \<and> c \<noteq> 46 \<and> c \<noteq> 45"
  unfolding isDigit_def isSpace_def by arith

lemma digits_plain:
  assumes "list_all isDigit s"
  shows "stripSeparators s = s" "takeWhile isDigit s = s" "dropWhile isDigit s = []"
    "takeWhile (\<lambda>c. c \<noteq> 46) s = s" "dropWhile (\<lambda>c. c \<noteq> 46) s = []"
    "s \<noteq> [] \<Longrightarrow> hd s \<noteq> 45"
proof -
  have d: "\<And>c. c \<in> set s \<Longrightarrow> isDigit c" using assms by (simp add: list_all_iff)
  show "stripSeparators s = s" unfolding stripSeparators_def
    by (rule filter_True) (use d isDigit_plain in blast)
  show "takeWhile isDigit s = s" using d by (simp add: takeWhile_eq_all_conv)
  show "dropWhile isDigit s = []" using d by simp
  show "takeWhile (\<lambda>c. c \<noteq> 46) s = s" using d isDigit_plain by (simp add: takeWhile_eq_all_conv)
  show "dropWhile (\<lambda>c. c \<noteq> 46) s = []" using d isDigit_plain by simp
  show "s \<noteq> [] \<Longrightarrow> hd s \<noteq> 45" using d [of "hd s"] isDigit_plain [of "hd s"] by auto
qed

lemma convertToChequeFormat_toString:
  assumes "n \<le> 999999999999"
  shows "convertToChequeFormat (toString n) =
           (if n = 0 then ZERO_AMOUNT else convertInteger n @ [YUAN, ZHENG])"
proof -
  let ?s = "toString n"
  have d: "list_all isDigit ?s" and ne: "?s \<noteq> []" using toString_digits [of n] by simp_all
  note p = digits_plain [OF d]
  have h: "hd ?s \<noteq> 45" using p(6) ne by simp
  have b: "\<forall>x\<in>set ?s. isDigit x" using d by (simp add: list_all_iff)
  have m: "matchesAmount ?s" by (simp add: matchesAmount_def Let_def p(2,3) h ne b)
  have "digitsValue [48, 48] = 0" by (simp add: digitsValue_def)
  then have v: "parseFloat_x100 ?s = int (n * 100)"
    by (simp add: parseFloat_x100_def Let_def digitsValue_toString p(2,3) h ne b)
  have i: "parseInt (parts0 ?s) = n" "parts1 ?s = []"
    by (simp_all add: parseInt_def parts0_def parts1_def digitsValue_toString p(2,4,5))
  show ?thesis using assms ne m
    by (simp add: convertToChequeFormat_def Let_def p(1) v i)
qed

lemma convertInteger_clean:
  "noDoubleLing (convertInteger n) \<and> noLingBeforeUnit (convertInteger n)"
  using cleanup_post [of "convLoop n 0 []"] by (simp add: convertInteger_def)

text \<open>
  C4: for every integer \<open>n\<close> from 0 to 999,999,999,999 the answer of
  \<open>convertToChequeFormat\<close> to the decimal numeral of \<open>n\<close> ends with YUAN ZHENG, has
  no two neighbouring zero glyphs and has no zero glyph directly before WAN or YI.
\<close>

theorem integer_amount_shape:
  assumes "n \<le> 999999999999"
  shows "endsWith (convertToChequeFormat (toString n)) [YUAN, ZHENG] \<and>
         noDoubleLing (convertToChequeFormat (toString n)) \<and>
         noLingBeforeUnit (convertToChequeFormat (toString n))"
proof (cases "n = 0")
  case True
  then show ?thesis
    by (simp add: convertToChequeFormat_toString ZERO_AMOUNT_def endsWith_def)
next
  case False
  then have eq: "convertToChequeFormat (toString n) = convertInteger n @ [YUAN, ZHENG]"
    using assms by (simp add: convertToChequeFormat_toString)
  have "noDoubleLing (convertInteger n @ [YUAN, ZHENG])"
    unfolding noDoubleLing_append using convertInteger_clean [of n] by simp
  moreover have "noLingBeforeUnit (convertInteger n @ [YUAN, ZHENG])"
    unfolding noLingBeforeUnit_append using convertInteger_clean [of n] by simp
  ultimately show ?thesis unfolding eq by (simp add: endsWith_append)
qed

theorem integer_amount_shape_witness:
  "(100010001::nat) \<le> 999999999999 \<and>
   convertToChequeFormat (toString 100010001) =
     [22777, YI, LING, 22777, WAN, LING, 22777, YUAN, ZHENG] \<and>
   endsWith (convertToChequeFormat (toString 100010001)) [YUAN, ZHENG] \<and>
   noDoubleLing (convertToChequeFormat (toString 100010001)) \<and>
   noLingBeforeUnit (convertToChequeFormat (toString 100010001))"
  using integer_amount_shape [of 100010001] by (simp add: eval_simps)

section \<open>Concrete answers and rejections\<close>

text \<open>
  C1: the converter's \<open>convertInteger\<close> does emit the unit glyph of a group that is
  entirely zero when a higher group exists: for 100000000 the WAN of the empty middle
  group stays in the text, so \<open>convertToChequeFormat("100000000")\<close> is the glyph
  of 1 followed by YI WAN YUAN ZHENG, not by YI YUAN ZHENG. The \<open>convertInteger\<close> of
  the test harness emits no unit glyph for that group.
\<close>

theorem zero_group_unit_emitted:
  "convertToChequeFormat [49, 48, 48, 48, 48, 48, 48, 48, 48] = [22777, YI, WAN, YUAN, ZHENG] \<and>
   convertInteger 100000000 = [22777, YI, WAN] \<and>
   convertInteger_csv 100000000 = [22777, YI]"
  by (simp add: eval_simps)

text \<open>
  C2: for a fractional part that is present and all zeros the converter appends nothing
  behind YUAN: \<open>"1.00"\<close> and \<open>"5.0"\<close> give the text without ZHENG, while \<open>"1"\<close>
  gives it with ZHENG. The copy in the test harness appends ZHENG in these cases.
\<close>

theorem zero_fraction_without_marker:
  "convertToChequeFormat [49, 46, 48, 48] = [22777, YUAN] \<and>
   convertToChequeFormat [53, 46, 48] = [20237, YUAN] \<and>
   convertToChequeFormat [49] = [22777, YUAN, ZHENG] \<and>
   convertToChequeFormat_csv [49, 46, 48, 48] = [22777, YUAN, ZHENG] \<and>
   convertToChequeFormat_csv [53, 46, 48] = [20237, YUAN, ZHENG]"
  by (simp add: eval_simps)

text \<open>
  C5, as stated, fails: \<open>"-0.0"\<close> passes the pattern and begins with a minus sign,
  and the answer is not the rejection of negative amounts.
\<close>

theorem minus_zero_not_rejected:
  "matchesAmount (stripSeparators [45, 48, 46, 48]) \<and> hd (stripSeparators [45, 48, 46, 48]) = 45 \<and>
   convertToChequeFormat [45, 48, 46, 48] \<noteq> MSG_NEGATIVE"
  by (simp add: eval_simps)

lemma matchesAmount_nonempty: "matchesAmount s \<Longrightarrow> s \<noteq> []"
  by (auto simp: matchesAmount_def)

lemma parseFloat_x100_minus:
  "s \<noteq> [] \<Longrightarrow> hd s = 45 \<Longrightarrow> parseFloat_x100 s \<le> 0"
  by (simp add: parseFloat_x100_def Let_def)

text \<open>
  C5, amended: an input whose stripped form passes the pattern, begins with a minus sign
  and has a parsed value other than zero is answered with the rejection of negative
  amounts (by the converter and by the copy in the test harness).
\<close>

theorem negative_rejected:
  assumes "matchesAmount (stripSeparators input)"
    and "hd (stripSeparators input) = 45"
    and "parseFloat_x100 (stripSeparators input) \<noteq> 0"
  shows "convertToChequeFormat input = MSG_NEGATIVE \<and> convertToChequeFormat_csv input = MSG_NEGATIVE"
proof -
  let ?s = "stripSeparators input"
  have ne: "?s \<noteq> []" using assms(1) by (rule matchesAmount_nonempty)
  have "parseFloat_x100 ?s < 0" using parseFloat_x100_minus [OF ne assms(2)] assms(3) by simp
  then show ?thesis using ne assms(1)
    by (simp add: convertToChequeFormat_def convertToChequeFormat_csv_def Let_def)
qed

theorem negative_rejected_witness:
  "matchesAmount (stripSeparators [45, 53]) \<and> hd (stripSeparators [45, 53]) = 45 \<and>
   parseFloat_x100 (stripSeparators [45, 53]) = - 500 \<and>
   convertToChequeFormat [45, 53] = [19981, 25903, 25345, 36000, 25976]"
  using negative_rejected [of "[45, 53]"] by (simp add: eval_simps)

text \<open>
  C10: an input whose stripped form passes the pattern, begins with a minus sign and has
  the parsed value zero is not rejected as negative: it is answered with LING YUAN ZHENG,
  by the converter and by the copy in the test harness. In particular \<open>"-0"\<close>,
  \<open>"-0.0"\<close> and \<open>"-0.00"\<close> are answered so.
\<close>

theorem negative_zero_accepted:
  assumes "matchesAmount (stripSeparators input)"
    and "hd (stripSeparators input) = 45"
    and "parseFloat_x100 (stripSeparators input) = 0"
  shows "convertToChequeFormat input = [LING, YUAN, ZHENG] \<and>
         convertToChequeFormat_csv input = [LING, YUAN, ZHENG] \<and>
         convertToChequeFormat [45, 48] = [LING, YUAN, ZHENG] \<and>
         convertToChequeFormat [45, 48, 46, 48] = [LING, YUAN, ZHENG] \<and>
         convertToChequeFormat [45, 48, 46, 48, 48] = [LING, YUAN, ZHENG] \<and>
         convertToChequeFormat_csv [45, 48] = [LING, YUAN, ZHENG] \<and>
         convertToChequeFormat_csv [45, 48, 46, 48] = [LING, YUAN, ZHENG] \<and>
         convertToChequeFormat_csv [45, 48, 46, 48, 48] = [LING, YUAN, ZHENG]"
proof -
  have ne: "stripSeparators input \<noteq> []" using assms(1) by (rule matchesAmount_nonempty)
  have g: "convertToChequeFormat input = [LING, YUAN, ZHENG]"
    "convertToChequeFormat_csv input = [LING, YUAN, ZHENG]"
    using ne assms(1,3)
    by (simp_all add: convertToChequeFormat_def convertToChequeFormat_csv_def Let_def
        ZERO_AMOUNT_def)
  have e: "convertToChequeFormat [45, 48] = [LING, YUAN, ZHENG]"
    "convertToChequeFormat [45, 48, 46, 48] = [LING, YUAN, ZHENG]"
    "convertToChequeFormat [45, 48, 46, 48, 48] = [LING, YUAN, ZHENG]"
    "convertToChequeFormat_csv [45, 48] = [LING, YUAN, ZHENG]"
    "convertToChequeFormat_csv [45, 48, 46, 48] = [LING, YUAN, ZHENG]"
    "convertToChequeFormat_csv [45, 48, 46, 48, 48] = [LING, YUAN, ZHENG]"
    by (simp_all add: eval_simps)
  show ?thesis by (intro conjI) (rule g e)+
qed

theorem negative_zero_accepted_witness:
  "stripSeparators [45, 32, 48, 44, 48, 48, 48, 46, 48] = [45, 48, 48, 48, 48, 46, 48] \<and>
   matchesAmount (stripSeparators [45, 32, 48, 44, 48, 48, 48, 46, 48]) \<and>
   hd (stripSeparators [45, 32, 48, 44, 48, 48, 48, 46, 48]) = 45 \<and>
   parseFloat_x100 (stripSeparators [45, 32, 48, 44, 48, 48, 48, 46, 48]) = 0 \<and>
   convertToChequeFormat [45, 32, 48, 44, 48, 48, 48, 46, 48] = [LING, YUAN, ZHENG] \<and>
   convertToChequeFormat_csv [45, 32, 48, 44, 48, 48, 48, 46, 48] = [LING, YUAN, ZHENG]"
  using negative_zero_accepted [of "[45, 32, 48, 44, 48, 48, 48, 46, 48]"]
  by (simp add: stripSeparators_def isSpace_def matchesAmount_def isDigit_def
      parseFloat_x100_def digitsValue_def)

text \<open>
  C3, as stated, fails for the copy in the test harness: it does not answer
  \<open>"1000000000000"\<close> with the literal of the converter, and it rejects \<open>"100000"\<close>,
  which is below the limit of the converter, with a literal of its own.
\<close>

theorem harness_limit_differs:
  "convertToChequeFormat_csv [49, 48, 48, 48, 48, 48, 48, 48, 48, 48, 48, 48, 48] \<noteq> MSG_TOO_LARGE \<and>
   matchesAmount (stripSeparators [49, 48, 48, 48, 48, 48]) \<and>
   parseFloat_x100 (stripSeparators [49, 48, 48, 48, 48, 48]) = 10000000 \<and>
   convertToChequeFormat_csv [49, 48, 48, 48, 48, 48] = MSG_TOO_LARGE_csv \<and>
   convertToChequeFormat [49, 48, 48, 48, 48, 48] = [22777, SHI, WAN, YUAN, ZHENG]"
  by (simp add: eval_simps)

lemma YUAN_not_in_messages:
  "YUAN \<notin> set MSG_TOO_LARGE" "YUAN \<notin> set MSG_TOO_LARGE_csv"
  by (simp_all add: MSG_TOO_LARGE_def MSG_TOO_LARGE_csv_def)

lemma has_YUAN_not_message:
  "YUAN \<in> set s \<Longrightarrow> s \<noteq> MSG_TOO_LARGE \<and> s \<noteq> MSG_TOO_LARGE_csv"
  using YUAN_not_in_messages by auto

lemma messages_distinct:
  "MSG_EMPTY \<noteq> MSG_TOO_LARGE" "MSG_FORMAT \<noteq> MSG_TOO_LARGE" "MSG_NEGATIVE \<noteq> MSG_TOO_LARGE"
  "ZERO_AMOUNT \<noteq> MSG_TOO_LARGE" "MSG_TOO_LARGE_csv \<noteq> MSG_TOO_LARGE"
  "MSG_EMPTY \<noteq> MSG_TOO_LARGE_csv" "MSG_FORMAT \<noteq> MSG_TOO_LARGE_csv"
  "MSG_NEGATIVE \<noteq> MSG_TOO_LARGE_csv" "ZERO_AMOUNT \<noteq> MSG_TOO_LARGE_csv"
  by (simp_all add: MSG_EMPTY_def MSG_FORMAT_def MSG_NEGATIVE_def ZERO_AMOUNT_def
      MSG_TOO_LARGE_def MSG_TOO_LARGE_csv_def)

text \<open>
  C3, amended: the converter answers with its too-large literal exactly when the stripped
  input passes the pattern and its parsed value exceeds 999,999,999,999.99 (in
  hundredths: 99999999999999). The copy in the test harness answers with its own literal
  exactly when the parsed value is at least 100000, and never with the converter's.
\<close>

theorem too_large_exact:
  "(convertToChequeFormat input = MSG_TOO_LARGE \<longleftrightarrow>
      matchesAmount (stripSeparators input) \<and>
      parseFloat_x100 (stripSeparators input) > 99999999999999) \<and>
   (convertToChequeFormat_csv input = MSG_TOO_LARGE_csv \<longleftrightarrow>
      matchesAmount (stripSeparators input) \<and>
      parseFloat_x100 (stripSeparators input) \<ge> 10000000) \<and>
   convertToChequeFormat_csv input \<noteq> MSG_TOO_LARGE"
proof -
  let ?s = "stripSeparators input"
  have a: "convertToChequeFormat input = MSG_TOO_LARGE \<longleftrightarrow>
      matchesAmount ?s \<and> parseFloat_x100 ?s > 99999999999999"
    using matchesAmount_nonempty [of ?s]
    by (auto simp: convertToChequeFormat_def Let_def messages_distinct has_YUAN_not_message)
  have b: "convertToChequeFormat_csv input = MSG_TOO_LARGE_csv \<longleftrightarrow>
      matchesAmount ?s \<and> parseFloat_x100 ?s \<ge> 10000000"
    using matchesAmount_nonempty [of ?s]
    by (auto simp: convertToChequeFormat_csv_def Let_def messages_distinct has_YUAN_not_message)
  have c: "convertToChequeFormat_csv input \<noteq> MSG_TOO_LARGE"
    by (auto simp: convertToChequeFormat_csv_def Let_def messages_distinct has_YUAN_not_message)
  show ?thesis using a b c by blast
qed

theorem too_large_exact_witness:
  "convertToChequeFormat [49, 48, 48, 48, 48, 48, 48, 48, 48, 48, 48, 48, 48] = MSG_TOO_LARGE \<and>
   convertToChequeFormat [57, 57, 57, 57, 57, 57, 57, 57, 57, 57, 57, 57, 46, 57, 57] \<noteq> MSG_TOO_LARGE"
  using too_large_exact [of "[49, 48, 48, 48, 48, 48, 48, 48, 48, 48, 48, 48, 48]"]
    too_large_exact [of "[57, 57, 57, 57, 57, 57, 57, 57, 57, 57, 57, 57, 46, 57, 57]"]
  by (simp add: stripSeparators_def isSpace_def matchesAmount_def isDigit_def
      parseFloat_x100_def digitsValue_def)

section \<open>Properties of the converter's convertInteger\<close>

lemma convLoop_zero: "convLoop 0 unitIndex result = result"
  by (simp add: convLoop.simps)

lemma convLoop_step:
  "num > 0 \<Longrightarrow>
   convLoop num unitIndex result =
     convLoop (num div 10000) (unitIndex + 1) (groupText num unitIndex @ result)"
  by (subst convLoop.simps) (simp add: groupText_def Let_def)

lemma convLoop_result: "convLoop num unitIndex result = convLoop num unitIndex [] @ result"
proof (induction num arbitrary: unitIndex result rule: less_induct)
  case (less num)
  show ?case
  proof (cases "num > 0")
    case False
    then show ?thesis by (simp add: convLoop_zero)
  next
    case True
    then have d: "num div 10000 < num" by simp
    show ?thesis
      unfolding convLoop_step [OF True, of unitIndex result] convLoop_step [OF True, of unitIndex "[]"]
      using less [OF d, of "unitIndex + 1" "groupText num unitIndex @ result"]
        less [OF d, of "unitIndex + 1" "groupText num unitIndex @ []"]
      by simp
  qed
qed

lemma convLoop_unfold:
  "num > 0 \<Longrightarrow>
   convLoop num unitIndex [] = convLoop (num div 10000) (unitIndex + 1) [] @ groupText num unitIndex"
  using convLoop_step [of num unitIndex "[]"]
    convLoop_result [of "num div 10000" "unitIndex + 1" "groupText num unitIndex"]
  by simp

lemma convLoop_split:
  "convLoop num 0 [] = convLoop (num div 10000 ^ k) k [] @ textBelow num k"
proof (induction k)
  case 0
  show ?case by simp
next
  case (Suc k)
  let ?m = "num div 10000 ^ k"
  have "?m div 10000 = num div (10000 ^ k * 10000)"
    by (simp only: div_mult2_eq)
  also have "10000 ^ k * 10000 = (10000::nat) ^ Suc k"
    by simp
  finally have dd: "?m div 10000 = num div 10000 ^ Suc k" .
  show ?case
  proof (cases "?m > 0")
    case True
    show ?thesis using Suc convLoop_unfold [OF True, of k] dd by simp
  next
    case False
    then have z: "?m = 0" by simp
    then have "num div 10000 ^ Suc k = 0" using dd by simp
    then show ?thesis using Suc z
      by (simp add: convLoop_zero groupText_def del: power_Suc)
  qed
qed


lemma toString_hd: "0 < n \<Longrightarrow> hd (toString n) \<noteq> 48"
proof (induction n rule: toString.induct)
  case (1 n)
  show ?case
  proof (cases "n < 10")
    case True
    then show ?thesis using 1(2) by (subst toString.simps) simp
  next
    case False
    then have "0 < n div 10" by simp
    then have "hd (toString (n div 10)) \<noteq> 48" using 1(1) [OF False] by simp
    moreover have "toString (n div 10) \<noteq> []" using toString_digits by simp
    ultimately show ?thesis using False by (subst toString.simps) simp
  qed
qed

lemma secLoop_nonempty:
  "result \<noteq> [] \<Longrightarrow> secLoop dm numStr len i result zeroFlag \<noteq> []"
proof (induction dm numStr len i result zeroFlag rule: secLoop.induct)
  case (1 dm numStr len i result zeroFlag)
  show ?case
  proof (cases "i < len")
    case False
    then show ?thesis using 1(3) by (simp add: secLoop.simps)
  next
    case True
    show ?thesis
    proof (cases "numStr ! i = 48")
      case z: True
      show ?thesis using 1(1) [OF True refl refl z 1(3)] True z
        by (subst secLoop.simps) simp
    next
      case nz: False
      let ?r = "(if zeroFlag \<and> result \<noteq> [] then result @ [LING] else result)
                  @ dm (numStr ! i) @ units (len - 1 - i)"
      have "?r \<noteq> []" using 1(3) by simp
      then have "secLoop dm numStr len (i + 1) ?r False \<noteq> []"
        using 1(2) [OF True refl refl nz] by simp
      then show ?thesis using True nz by (subst secLoop.simps) (simp add: Let_def)
    qed
  qed
qed

lemma convertSectionWith_nonempty:
  assumes dm: "\<And>c. c \<noteq> 48 \<Longrightarrow> dm c \<noteq> []" and pos: "0 < num"
  shows "convertSectionWith dm num \<noteq> []"
proof -
  let ?s = "toString num"
  have ne: "?s \<noteq> []" using toString_digits by simp
  then have len: "0 < length ?s" by simp
  have "?s ! 0 = hd ?s" using ne by (simp add: hd_conv_nth)
  then have nz: "?s ! 0 \<noteq> 48" using toString_hd [OF pos] by simp
  let ?r = "dm (?s ! 0) @ units (length ?s - 1 - 0)"
  have "?r \<noteq> []" using dm [OF nz] by simp
  then have "secLoop dm ?s (length ?s) (0 + 1) ?r False \<noteq> []" by (rule secLoop_nonempty)
  moreover have "secLoop dm ?s (length ?s) 0 [] False = secLoop dm ?s (length ?s) (0 + 1) ?r False"
    using len nz by (subst secLoop.simps) (simp add: Let_def)
  ultimately show ?thesis using pos by (simp add: convertSectionWith_def Let_def)
qed

lemma convertSection_nonempty: "0 < num \<Longrightarrow> convertSection num \<noteq> []"
  unfolding convertSection_def
  by (rule convertSectionWith_nonempty) (simp_all add: digitMap_nonzero)

lemma noBig_noLingBeforeUnit: "WAN \<notin> set s \<Longrightarrow> YI \<notin> set s \<Longrightarrow> noLingBeforeUnit s"
proof (induction s)
  case Nil
  show ?case by simp
next
  case (Cons c cs)
  then show ?case by (cases cs) auto
qed

lemma cleanText_Nil: "cleanText []"
  by (simp add: cleanText_def endsWithLing_def)

lemma cleanText_append: "cleanText a \<Longrightarrow> cleanText b \<Longrightarrow> cleanText (a @ b)"
  by (cases "a = []")
    (auto simp: cleanText_def noDoubleLing_append noLingBeforeUnit_append endsWithLing_append)

lemma cleanText_append_Ling:
  assumes "cleanText a" "a \<noteq> []" "cleanText b" "b \<noteq> []" "hd b \<noteq> WAN" "hd b \<noteq> YI"
  shows "cleanText (a @ [LING] @ b)"
proof -
  have lb: "noDoubleLing ([LING] @ b)" "noLingBeforeUnit ([LING] @ b)"
    "\<not> endsWithLing ([LING] @ b)"
    using assms(3-6)
    by (simp_all add: cleanText_def noDoubleLing_Cons noLingBeforeUnit_Cons endsWithLing_Cons)
  have "noDoubleLing (a @ ([LING] @ b))"
    unfolding noDoubleLing_append [of a] using assms(1) lb by (simp add: cleanText_def)
  moreover have "noLingBeforeUnit (a @ ([LING] @ b))"
    unfolding noLingBeforeUnit_append [of a] using assms(1) lb by (simp add: cleanText_def)
  moreover have "\<not> endsWithLing (a @ ([LING] @ b))"
    unfolding endsWithLing_append [of a] using lb by simp
  moreover have "hd (a @ ([LING] @ b)) \<noteq> LING" using assms(1,2) by (simp add: cleanText_def)
  ultimately show ?thesis by (simp add: cleanText_def)
qed

lemma sectionText_cleanText: "sectionText s \<Longrightarrow> cleanText s"
  by (simp add: sectionText_def cleanText_def noBig_noLingBeforeUnit)

lemma bigUnits_noLing: "LING \<notin> set (bigUnits u)"
  by (simp add: bigUnits_def undefinedStr_def)

lemma noLing_cleanText: "LING \<notin> set s \<Longrightarrow> cleanText s"
  using noLing_clean [of s] by (cases s) (auto simp: cleanText_def)

lemma section_unit_cleanText:
  assumes "0 < section"
  shows "cleanText (convertSection section @ bigUnits u)"
    "convertSection section @ bigUnits u \<noteq> []"
    "hd (convertSection section @ bigUnits u) \<noteq> WAN"
    "hd (convertSection section @ bigUnits u) \<noteq> YI"
proof -
  let ?sec = "convertSection section"
  have st: "sectionText ?sec" by (rule convertSection_sectionText)
  have ne: "?sec \<noteq> []" using assms by (rule convertSection_nonempty)
  show "cleanText (?sec @ bigUnits u)"
    using sectionText_cleanText [OF st] noLing_cleanText [OF bigUnits_noLing]
    by (rule cleanText_append)
  show "?sec @ bigUnits u \<noteq> []" using ne by simp
  have "hd ?sec \<in> set ?sec" using ne by simp
  then have "hd ?sec \<noteq> WAN \<and> hd ?sec \<noteq> YI" using st by (auto simp: sectionText_def)
  then show "hd (?sec @ bigUnits u) \<noteq> WAN" "hd (?sec @ bigUnits u) \<noteq> YI"
    using ne by simp_all
qed

lemma convLoop_cleanText:
  "cleanText (convLoop num u []) \<and> (0 < num \<longrightarrow> convLoop num u [] \<noteq> [])"
proof (induction num arbitrary: u rule: less_induct)
  case (less num)
  show ?case
  proof (cases "0 < num")
    case False
    then show ?thesis by (simp add: convLoop_zero cleanText_Nil)
  next
    case True
    let ?section = "num mod 10000" and ?nextNum = "num div 10000"
    let ?hi = "convLoop ?nextNum (u + 1) []"
    have "?nextNum < num" using True by simp
    then have ih: "cleanText ?hi" "0 < ?nextNum \<Longrightarrow> ?hi \<noteq> []"
      using less [of ?nextNum "u + 1"] by simp_all
    have eq: "convLoop num u [] = ?hi @ groupText num u" using True by (rule convLoop_unfold)
    show ?thesis
    proof (cases "0 < ?section")
      case sec: True
      note su = section_unit_cleanText [OF sec, of u]
      show ?thesis
      proof (cases "0 < ?nextNum \<and> ?section < 1000")
        case a: True
        then have g: "groupText num u = [LING] @ (convertSection ?section @ bigUnits u)"
          using sec by (simp add: groupText_def Let_def)
        have "cleanText (?hi @ [LING] @ (convertSection ?section @ bigUnits u))"
          using ih(1) ih(2) a su by (intro cleanText_append_Ling) simp_all
        then show ?thesis unfolding eq g using su(2) by simp
      next
        case b: False
        then have g: "groupText num u = convertSection ?section @ bigUnits u"
          using sec by (auto simp: groupText_def Let_def)
        have "cleanText (?hi @ (convertSection ?section @ bigUnits u))"
          using ih(1) su(1) by (rule cleanText_append)
        then show ?thesis unfolding eq g using su(2) by simp
      qed
    next
      case nosec: False
      have "?section + 10000 * ?nextNum = num" by (rule mod_mult_div_eq)
      then have nn: "0 < ?nextNum" using True nosec by (cases "?nextNum = 0") simp_all
      have g: "groupText num u = bigUnits u"
        using nosec nn by (simp add: groupText_def Let_def)
      have "cleanText (?hi @ bigUnits u)"
        using ih(1) noLing_cleanText [OF bigUnits_noLing] by (rule cleanText_append)
      then show ?thesis unfolding eq g using ih(2) [OF nn] by simp
    qed
  qed
qed

lemma convertInteger_raw: "0 < num \<Longrightarrow> convertInteger num = convLoop num 0 []"
  using convLoop_cleanText [of num 0]
  by (simp add: convertInteger_def cleanText_def cleanup_id)

lemma medial_zero_converter:
  assumes "0 < (num div 10000 ^ i) mod 10000"
    and "(num div 10000 ^ i) mod 10000 < 1000"
    and "0 < num div 10000 ^ (i + 1)"
  shows "convertInteger num =
           convLoop (num div 10000 ^ (i + 1)) (i + 1) [] @ [LING] @
           convertSection ((num div 10000 ^ i) mod 10000) @ bigUnits i @ textBelow num i"
    and "\<not> endsWithLing (convLoop (num div 10000 ^ (i + 1)) (i + 1) [])"
    and "convLoop (num div 10000 ^ (i + 1)) (i + 1) [] \<noteq> []"
proof -
  let ?m = "num div 10000 ^ i"
  let ?hi = "convLoop (num div 10000 ^ (i + 1)) (i + 1) []"
  have "?m div 10000 = num div (10000 ^ i * 10000)" by (simp only: div_mult2_eq)
  also have "10000 ^ i * 10000 = (10000::nat) ^ (i + 1)" by simp
  finally have dd: "?m div 10000 = num div 10000 ^ (i + 1)" .
  have pos: "0 < num" using assms(1) by (cases "num = 0") simp_all
  have g: "groupText ?m i = [LING] @ convertSection (?m mod 10000) @ bigUnits i"
    using assms dd by (simp add: groupText_def Let_def)
  have "convertInteger num = convLoop num 0 []" using pos by (rule convertInteger_raw)
  also have "\<dots> = convLoop (num div 10000 ^ Suc i) (Suc i) [] @ textBelow num (Suc i)"
    by (rule convLoop_split)
  finally show "convertInteger num = ?hi @ [LING] @ convertSection (?m mod 10000) @ bigUnits i
      @ textBelow num i"
    using g by simp
  show "\<not> endsWithLing ?hi" "?hi \<noteq> []"
    using convLoop_cleanText [of "num div 10000 ^ (i + 1)" "i + 1"] assms(3)
    by (simp_all add: cleanText_def)
qed

section \<open>Properties of the test harness's convertInteger\<close>

lemma sectionsLoop_values:
  assumes "num < 10000 ^ 3"
  shows "sectionsLoop num [] =
    (if num = 0 then []
     else if num div 10000 = 0 then [num mod 10000]
     else if num div 10000 div 10000 = 0 then [num mod 10000, num div 10000 mod 10000]
     else [num mod 10000, num div 10000 mod 10000, num div 10000 div 10000])"
proof -
  have "num div 10000 div 10000 < 10000" using assms by (simp add: div_mult2_eq [symmetric])
  then have z: "num div 10000 div 10000 div 10000 = 0" "num div 10000 div 10000 mod 10000 = num div 10000 div 10000"
    by simp_all
  show ?thesis
    by (subst sectionsLoop.simps, subst sectionsLoop.simps, subst sectionsLoop.simps,
        subst sectionsLoop.simps) (simp add: z)
qed

lemma convertSection_csv_nonempty: "0 < num \<Longrightarrow> convertSection_csv num \<noteq> []"
  unfolding convertSection_csv_def
  by (rule convertSectionWith_nonempty) (simp_all add: digitMap_csv_nonzero)

lemma section_csv_cleanText:
  assumes "0 < section"
  shows "cleanText (convertSection_csv section @ bigUnits u)"
    "convertSection_csv section @ bigUnits u \<noteq> []"
    "hd (convertSection_csv section @ bigUnits u) \<noteq> WAN"
    "hd (convertSection_csv section @ bigUnits u) \<noteq> YI"
proof -
  let ?sec = "convertSection_csv section"
  have st: "sectionText ?sec" by (rule convertSection_csv_sectionText)
  have ne: "?sec \<noteq> []" using assms by (rule convertSection_csv_nonempty)
  show "cleanText (?sec @ bigUnits u)"
    using sectionText_cleanText [OF st] noLing_cleanText [OF bigUnits_noLing]
    by (rule cleanText_append)
  show "?sec @ bigUnits u \<noteq> []" using ne by simp
  have "hd ?sec \<in> set ?sec" using ne by simp
  then have "hd ?sec \<noteq> WAN \<and> hd ?sec \<noteq> YI" using st by (auto simp: sectionText_def)
  then show "hd (?sec @ bigUnits u) \<noteq> WAN" "hd (?sec @ bigUnits u) \<noteq> YI"
    using ne by simp_all
qed

lemma collapseLing_double:
  "collapseLing (a @ LING # LING # b) = collapseLing (a @ LING # b)"
proof (induction a rule: collapseLing.induct)
  case 1
  show ?case by simp
next
  case (2 c cs)
  show ?case
  proof (cases "c = LING")
    case False
    then show ?thesis using 2(2) by simp
  next
    case True
    show ?thesis
    proof (cases "list_all (\<lambda>x. x = LING) cs")
      case all: True
      then have "dropWhile (\<lambda>x. x = LING) (cs @ LING # LING # b) = dropWhile (\<lambda>x. x = LING) b"
        "dropWhile (\<lambda>x. x = LING) (cs @ LING # b) = dropWhile (\<lambda>x. x = LING) b"
        by (simp_all add: dropWhile_append list_all_iff)
      then show ?thesis using True by simp
    next
      case notall: False
      then obtain x where x: "x \<in> set cs" "x \<noteq> LING" by (auto simp: list_all_iff)
      have d: "dropWhile (\<lambda>x. x = LING) (cs @ r) = dropWhile (\<lambda>x. x = LING) cs @ r" for r
        using x by (intro dropWhile_append1 [of x]) simp_all
      show ?thesis using True 2(1) [OF True] by (simp add: d)
    qed
  qed
qed

lemma cleanup_double:
  assumes "cleanText (a @ [LING] @ b)"
  shows "cleanup (a @ [LING] @ [LING] @ b) = a @ [LING] @ b"
proof -
  have "cleanup (a @ [LING] @ [LING] @ b) = cleanup (a @ [LING] @ b)"
    using collapseLing_double [of a b] by (simp add: cleanup_def)
  then show ?thesis using assms by (simp add: cleanText_def cleanup_id)
qed

lemma cleanText_cleanup: "cleanText s \<Longrightarrow> cleanup s = s"
  by (simp add: cleanText_def cleanup_id)


lemma bigUnits_values:
  "bigUnits 0 = []" "bigUnits (Suc 0) = [WAN]" "bigUnits (Suc (Suc 0)) = [YI]"
  by (simp_all add: bigUnits_def)

lemma csv_join:
  assumes "0 < x" "0 < y"
  shows "cleanText ((convertSection_csv x @ bigUnits u) @ (convertSection_csv y @ bigUnits v))"
    "cleanText ((convertSection_csv x @ bigUnits u) @ [LING] @ (convertSection_csv y @ bigUnits v))"
    "(convertSection_csv x @ bigUnits u) @ (convertSection_csv y @ bigUnits v) \<noteq> []"
    "(convertSection_csv x @ bigUnits u) @ [LING] @ (convertSection_csv y @ bigUnits v) \<noteq> []"
proof -
  note a = section_csv_cleanText [OF assms(1), of u] and b = section_csv_cleanText [OF assms(2), of v]
  show "cleanText ((convertSection_csv x @ bigUnits u) @ (convertSection_csv y @ bigUnits v))"
    using a(1) b(1) by (rule cleanText_append)
  show "cleanText ((convertSection_csv x @ bigUnits u) @ [LING] @ (convertSection_csv y @ bigUnits v))"
    using a(1,2) b by (rule cleanText_append_Ling)
  show "(convertSection_csv x @ bigUnits u) @ (convertSection_csv y @ bigUnits v) \<noteq> []"
    "(convertSection_csv x @ bigUnits u) @ [LING] @ (convertSection_csv y @ bigUnits v) \<noteq> []"
    using a(2) by auto
qed

lemma csv_join3:
  assumes ab: "cleanText ab" "ab \<noteq> []" and "0 < z"
  shows "cleanText (ab @ (convertSection_csv z @ bigUnits v))"
    "cleanText (ab @ [LING] @ (convertSection_csv z @ bigUnits v))"
proof -
  note c = section_csv_cleanText [OF assms(3), of v]
  show "cleanText (ab @ (convertSection_csv z @ bigUnits v))"
    using ab(1) c(1) by (rule cleanText_append)
  show "cleanText (ab @ [LING] @ (convertSection_csv z @ bigUnits v))"
    using ab c by (rule cleanText_append_Ling)
qed

lemma textGroups_csv_three:
  "textGroups_csv num 0 3 =
     groupText_csv (num div 10000 div 10000) (Suc (Suc 0)) @ groupText_csv (num div 10000) (Suc 0)
       @ groupText_csv num 0"
  by (simp add: numeral_3_eq_3 div_mult2_eq [symmetric])

lemma convertInteger_csv_text:
  assumes pos: "0 < num" and n: "num < 10000 ^ 3"
  shows "convertInteger_csv num = textGroups_csv num 0 3"
proof -
  let ?g0 = "num mod 10000" and ?m1 = "num div 10000"
  let ?g1 = "?m1 mod 10000" and ?m2 = "?m1 div 10000"
  let ?S = "\<lambda>x u. convertSection_csv x @ bigUnits u"
  have m2: "?m2 < 10000" using n by (simp add: div_mult2_eq [symmetric])
  then have m2s: "?m2 mod 10000 = ?m2" "?m2 div 10000 = 0" by simp_all
  note defs = convertInteger_csv_def sectionsLoop_values [OF n] Let_def bigUnits_values
    textGroups_csv_three groupText_csv_def m2s
  show ?thesis
  proof (cases "?m1 = 0")
    case one: True
    then have g0: "0 < ?g0" using pos by (simp add: div_eq_0_iff)
    have "cleanup (?S ?g0 0) = ?S ?g0 0"
      by (rule cleanText_cleanup [OF section_csv_cleanText(1) [OF g0]])
    then show ?thesis using pos one g0 by (simp add: defs)
  next
    case m1: False
    show ?thesis
    proof (cases "?m2 = 0")
      case two: True
      then have g1: "0 < ?g1" "?g1 = ?m1" using m1 by (simp_all add: div_eq_0_iff)
      show ?thesis
      proof (cases "0 < ?g0")
        case False
        have "cleanup (?S ?g1 1) = ?S ?g1 1"
          by (rule cleanText_cleanup [OF section_csv_cleanText(1) [OF g1(1)]])
        then show ?thesis using pos m1 two g1 False by (simp add: defs bigUnits_def)
      next
        case g0: True
        note j = csv_join [OF g1(1) g0, of 1 0]
        have a: "cleanup (?S ?g1 1 @ ?S ?g0 0) = ?S ?g1 1 @ ?S ?g0 0"
          by (rule cleanText_cleanup [OF j(1)])
        have b: "cleanup (?S ?g1 1 @ [LING] @ ?S ?g0 0) = ?S ?g1 1 @ [LING] @ ?S ?g0 0"
          by (rule cleanText_cleanup [OF j(2)])
        have ne: "convertSection_csv ?m1 \<noteq> []"
          using convertSection_csv_nonempty [OF g1(1)] g1(2) by simp
        show ?thesis using pos m1 two g1 g0 a b ne by (simp add: defs bigUnits_def)
      qed
    next
      case three: False
      then have g2: "0 < ?m2" by simp
      have ne2: "convertSection_csv ?m2 \<noteq> []" by (rule convertSection_csv_nonempty [OF g2])
      show ?thesis
      proof (cases "0 < ?g1")
        case g1: True
        note j = csv_join [OF g2 g1, of 2 1]
        show ?thesis
        proof (cases "0 < ?g0")
          case False
          have a: "cleanup (?S ?m2 2 @ ?S ?g1 1) = ?S ?m2 2 @ ?S ?g1 1"
            by (rule cleanText_cleanup [OF j(1)])
          have b: "cleanup (?S ?m2 2 @ [LING] @ ?S ?g1 1) = ?S ?m2 2 @ [LING] @ ?S ?g1 1"
            by (rule cleanText_cleanup [OF j(2)])
          show ?thesis using pos m1 three g1 False a b ne2 by (simp add: defs bigUnits_def)
        next
          case g0: True
          have a: "cleanup ((?S ?m2 2 @ ?S ?g1 1) @ ?S ?g0 0) = (?S ?m2 2 @ ?S ?g1 1) @ ?S ?g0 0"
            by (rule cleanText_cleanup [OF csv_join3(1) [OF j(1) j(3) g0]])
          have b: "cleanup ((?S ?m2 2 @ ?S ?g1 1) @ [LING] @ ?S ?g0 0) =
              (?S ?m2 2 @ ?S ?g1 1) @ [LING] @ ?S ?g0 0"
            by (rule cleanText_cleanup [OF csv_join3(2) [OF j(1) j(3) g0]])
          have c: "cleanup ((?S ?m2 2 @ [LING] @ ?S ?g1 1) @ ?S ?g0 0) =
              (?S ?m2 2 @ [LING] @ ?S ?g1 1) @ ?S ?g0 0"
            by (rule cleanText_cleanup [OF csv_join3(1) [OF j(2) j(4) g0]])
          have d: "cleanup ((?S ?m2 2 @ [LING] @ ?S ?g1 1) @ [LING] @ ?S ?g0 0) =
              (?S ?m2 2 @ [LING] @ ?S ?g1 1) @ [LING] @ ?S ?g0 0"
            by (rule cleanText_cleanup [OF csv_join3(2) [OF j(2) j(4) g0]])
          show ?thesis using pos m1 three g1 g0 a b c d ne2 by (simp add: defs bigUnits_def)
        qed
      next
        case g1: False
        show ?thesis
        proof (cases "0 < ?g0")
          case False
          have "cleanup (?S ?m2 2) = ?S ?m2 2"
            by (rule cleanText_cleanup [OF section_csv_cleanText(1) [OF g2]])
          then show ?thesis using pos m1 three g1 False ne2 by (simp add: defs bigUnits_def)
        next
          case g0: True
          note j = csv_join [OF g2 g0, of 2 0]
          have a: "cleanup (?S ?m2 2 @ ?S ?g0 0) = ?S ?m2 2 @ ?S ?g0 0"
            by (rule cleanText_cleanup [OF j(1)])
          have b: "cleanup (?S ?m2 2 @ [LING] @ [LING] @ ?S ?g0 0) = ?S ?m2 2 @ [LING] @ ?S ?g0 0"
            by (rule cleanup_double [OF j(2)])
          show ?thesis using pos m1 three g1 g0 a b ne2 by (simp add: defs bigUnits_def)
        qed
      qed
    qed
  qed
qed


lemma textGroups_csv_split:
  "textGroups_csv num 0 (i + 1 + n) =
     textGroups_csv num (i + 1) n @ groupText_csv (num div 10000 ^ i) i @ textGroups_csv num 0 i"
  by (induction n) simp_all

lemma groupText_csv_end: "\<not> endsWithLing (groupText_csv m k)"
proof (cases "0 < m mod 10000")
  case True
  note s = section_csv_cleanText [OF True, of k]
  have e: "\<not> endsWithLing (convertSection_csv (m mod 10000) @ bigUnits k)"
    using s(1) by (simp add: cleanText_def)
  have "\<not> endsWithLing (pre @ (convertSection_csv (m mod 10000) @ bigUnits k))" for pre
    by (simp only: endsWithLing_append [of pre "convertSection_csv (m mod 10000) @ bigUnits k"]
        s(2) if_False e simp_thms)
  from this [of "[LING]"] this [of "[]"] show ?thesis using True
    by (simp add: groupText_csv_def Let_def)
next
  case False
  then show ?thesis by (simp add: groupText_csv_def endsWithLing_def)
qed

lemma textGroups_csv_end: "\<not> endsWithLing (textGroups_csv num lo n)"
proof (induction n)
  case 0
  show ?case by (simp add: endsWithLing_def)
next
  case (Suc n)
  then show ?case using groupText_csv_end by (simp add: endsWithLing_append)
qed

lemma groupText_csv_top: "0 < m \<Longrightarrow> m < 10000 \<Longrightarrow> groupText_csv m k \<noteq> []"
  using convertSection_csv_nonempty [of m] by (simp add: groupText_csv_def Let_def)

lemma medial_zero_harness:
  assumes n: "num \<le> 999999999999"
    and s1: "0 < (num div 10000 ^ i) mod 10000"
    and s2: "(num div 10000 ^ i) mod 10000 < 1000"
    and hi: "0 < num div 10000 ^ (i + 1)"
  shows "convertInteger_csv num =
           textGroups_csv num (i + 1) (2 - i) @ [LING] @
           convertSection_csv ((num div 10000 ^ i) mod 10000) @ bigUnits i @ textGroups_csv num 0 i"
    and "\<not> endsWithLing (textGroups_csv num (i + 1) (2 - i))"
    and "textGroups_csv num (i + 1) (2 - i) \<noteq> []"
proof -
  have n3: "num < 10000 ^ 3" using n by simp
  have "(10000::nat) ^ (i + 1) \<le> num"
    using hi by (cases "num < 10000 ^ (i + 1)") simp_all
  then have "(10000::nat) ^ (i + 1) < 10000 ^ 3" using n3 by (rule le_less_trans)
  then have "i + 1 < 3" by (rule power_less_imp_less_exp [rotated]) simp
  then have i: "i = 0 \<or> i = 1" by arith
  have pos: "0 < num" using s1 by (cases "num = 0") simp_all
  let ?m = "num div 10000 ^ i"
  have "?m div 10000 = num div (10000 ^ i * 10000)" by (simp only: div_mult2_eq)
  also have "10000 ^ i * 10000 = (10000::nat) ^ (i + 1)" by simp
  finally have dd: "?m div 10000 = num div 10000 ^ (i + 1)" .
  have g: "groupText_csv ?m i = [LING] @ convertSection_csv (?m mod 10000) @ bigUnits i"
    using s1 s2 hi dd by (simp add: groupText_csv_def Let_def)
  have three: "i + 1 + (2 - i) = 3" using i by auto
  have "convertInteger_csv num = textGroups_csv num 0 (i + 1 + (2 - i))"
    unfolding three using pos n3 by (rule convertInteger_csv_text)
  then show "convertInteger_csv num =
           textGroups_csv num (i + 1) (2 - i) @ [LING] @
           convertSection_csv (?m mod 10000) @ bigUnits i @ textGroups_csv num 0 i"
    unfolding textGroups_csv_split g by simp
  show "\<not> endsWithLing (textGroups_csv num (i + 1) (2 - i))" by (rule textGroups_csv_end)
  have top: "num div 10000 ^ 2 < 10000"
    using n3 by (simp add: less_mult_imp_div_less)
  show "textGroups_csv num (i + 1) (2 - i) \<noteq> []"
  proof (cases "i = 0")
    case False
    then have i1: "i = 1" using i by simp
    have "groupText_csv (num div 10000 ^ 2) 2 \<noteq> []"
      using hi top unfolding i1 by (intro groupText_csv_top) simp_all
    then show ?thesis unfolding i1 by (simp add: numeral_2_eq_2)
  next
    case i0: True
    show ?thesis
    proof (cases "0 < num div 10000 ^ 2")
      case True
      then have "groupText_csv (num div 10000 ^ 2) 2 \<noteq> []"
        using top by (intro groupText_csv_top) simp_all
      then show ?thesis unfolding i0 by (simp add: numeral_2_eq_2)
    next
      case False
      then have "num div 10000 < 10000"
        by (simp add: div_eq_0_iff power2_eq_square less_mult_imp_div_less)
      then have "groupText_csv (num div 10000) 1 \<noteq> []"
        using hi unfolding i0 by (intro groupText_csv_top) simp_all
      then show ?thesis unfolding i0 by (simp add: numeral_2_eq_2)
    qed
  qed
qed


text \<open>
  C6: for every group \<open>i\<close> of \<open>num\<close> whose value is nonzero and below 1000 and which
  has a nonzero group above it, the result of \<open>convertInteger\<close> is the text of the
  groups above (not empty, not ending with the zero glyph), then one zero glyph, then the
  text of the group (not empty, not starting with the zero glyph), its unit, and the text
  of the groups below. This holds for the converter and for the test harness, each with
  the text of its own groups. In particular \<open>convertToChequeFormat("10001")\<close> is the
  glyphs of 1, WAN, LING, 1, YUAN, ZHENG in both.
\<close>

theorem medial_zero_single:
  assumes "num \<le> 999999999999"
    and "0 < (num div 10000 ^ i) mod 10000"
    and "(num div 10000 ^ i) mod 10000 < 1000"
    and "0 < num div 10000 ^ (i + 1)"
  shows "convertInteger num =
           convLoop (num div 10000 ^ (i + 1)) (i + 1) [] @ [LING] @
           convertSection ((num div 10000 ^ i) mod 10000) @ bigUnits i @ textBelow num i \<and>
         convLoop (num div 10000 ^ (i + 1)) (i + 1) [] \<noteq> [] \<and>
         \<not> endsWithLing (convLoop (num div 10000 ^ (i + 1)) (i + 1) []) \<and>
         convertSection ((num div 10000 ^ i) mod 10000) \<noteq> [] \<and>
         hd (convertSection ((num div 10000 ^ i) mod 10000)) \<noteq> LING \<and>
         convertInteger_csv num =
           textGroups_csv num (i + 1) (2 - i) @ [LING] @
           convertSection_csv ((num div 10000 ^ i) mod 10000) @ bigUnits i @
           textGroups_csv num 0 i \<and>
         textGroups_csv num (i + 1) (2 - i) \<noteq> [] \<and>
         \<not> endsWithLing (textGroups_csv num (i + 1) (2 - i)) \<and>
         convertSection_csv ((num div 10000 ^ i) mod 10000) \<noteq> [] \<and>
         hd (convertSection_csv ((num div 10000 ^ i) mod 10000)) \<noteq> LING \<and>
         convertToChequeFormat [49, 48, 48, 48, 49] = [22777, WAN, LING, 22777, YUAN, ZHENG] \<and>
         convertToChequeFormat_csv [49, 48, 48, 48, 49] = [22777, WAN, LING, 22777, YUAN, ZHENG]"
proof -
  let ?sec = "(num div 10000 ^ i) mod 10000"
  note c = medial_zero_converter [OF assms(2-4)]
  note h = medial_zero_harness [OF assms]
  have s: "sectionText (convertSection ?sec)" "sectionText (convertSection_csv ?sec)"
    by (rule convertSection_sectionText, rule convertSection_csv_sectionText)
  have n: "convertSection ?sec \<noteq> []" "convertSection_csv ?sec \<noteq> []"
    using assms(2) by (rule convertSection_nonempty, rule convertSection_csv_nonempty)
  have hd: "hd (convertSection ?sec) \<noteq> LING" "hd (convertSection_csv ?sec) \<noteq> LING"
    using s n by (simp_all add: sectionText_def)
  have e1: "convertToChequeFormat [49, 48, 48, 48, 49] = [22777, WAN, LING, 22777, YUAN, ZHENG]"
    by (simp add: eval_simps)
  have e2: "convertToChequeFormat_csv [49, 48, 48, 48, 49] = [22777, WAN, LING, 22777, YUAN, ZHENG]"
    by (simp add: eval_simps)
  show ?thesis
    by (intro conjI) (rule c h n hd e1 e2)+
qed

theorem medial_zero_single_witness:
  "(100010001::nat) \<le> 999999999999 \<and>
   0 < (100010001 div 10000 ^ 1) mod (10000::nat) \<and>
   (100010001 div 10000 ^ 1) mod 10000 < (1000::nat) \<and>
   0 < 100010001 div (10000::nat) ^ (1 + 1) \<and>
   convertInteger 100010001 = [22777, YI] @ [LING] @ [22777] @ [WAN] @ [LING, 22777] \<and>
   convLoop (100010001 div 10000 ^ (1 + 1)) (1 + 1) [] = [22777, YI] \<and>
   convertSection ((100010001 div 10000 ^ 1) mod 10000) = [22777] \<and>
   textBelow 100010001 1 = [LING, 22777] \<and>
   convertInteger_csv 100010001 = [22777, YI] @ [LING] @ [22777] @ [WAN] @ [LING, 22777] \<and>
   textGroups_csv 100010001 (1 + 1) (2 - 1) = [22777, YI] \<and>
   textGroups_csv 100010001 0 1 = [LING, 22777]"
  using medial_zero_single [of 100010001 1]
  by (simp add: eval_simps groupText_def groupText_csv_def)

section \<open>Reading the answers back\<close>

lemma isDigit_cases:
  "isDigit d \<Longrightarrow> d = 48 \<or> d = 49 \<or> d = 50 \<or> d = 51 \<or> d = 52 \<or> d = 53 \<or> d = 54 \<or> d = 55
     \<or> d = 56 \<or> d = 57"
  unfolding isDigit_def by arith

lemma read_digitMap:
  "isDigit d \<Longrightarrow> foldl readStep (h, t, a, c) (digitMap d) = (h, t, a, d - 48)"
  by (drule isDigit_cases) (auto simp: digitMap_def glyphDigit_def)

lemma read_LING: "readStep (h, t, a, c) LING = (h, t, a, 0)"
  by (simp add: glyphDigit_def)

lemma read_units:
  "k \<le> 3 \<Longrightarrow> foldl readStep (h, t, a, c) (units k) =
     (if k = 0 then (h, t, a, c) else (h, t, a + c * 10 ^ k, 0))"
proof -
  assume "k \<le> 3"
  then have "k = 0 \<or> k = 1 \<or> k = 2 \<or> k = 3" by arith
  then show ?thesis by (auto simp: units_def)
qed

lemma read_bigUnits:
  "1 \<le> u \<Longrightarrow> u \<le> 3 \<Longrightarrow>
   foldl readStep (h, t, a, c) (bigUnits u) = (h, t + (a + c) * 10000 ^ u, 0, 0)"
proof -
  assume "1 \<le> u" "u \<le> 3"
  then have "u = 1 \<or> u = 2 \<or> u = 3" by arith
  then show ?thesis by (auto simp: bigUnits_def)
qed

lemma read_marks:
  "readStep (h, t, a, c) YUAN = (h + (t + a + c) * 100, 0, 0, 0)"
  "readStep (h, t, a, c) JIAO = (h + c * 10, t, a, 0)"
  "readStep (h, t, a, c) FEN = (h + c, t, a, 0)"
  "readStep (h, t, a, c) ZHENG = (h, t, a, c)"
  by (simp_all add: glyphDigit_def)

declare readStep.simps [simp del]

lemma digitsValue_Cons:
  "digitsValue (x # xs) = (x - 48) * 10 ^ length xs + digitsValue xs"
proof (induction xs arbitrary: x rule: rev_induct)
  case Nil
  show ?case by (simp add: digitsValue_def)
next
  case (snoc y ys)
  have "digitsValue (x # ys @ [y]) = 10 * digitsValue (x # ys) + (y - 48)"
    using digitsValue_snoc [of "x # ys" y] by simp
  then show ?case using snoc [of x] by (simp add: digitsValue_snoc algebra_simps)
qed

lemma toString_length: "n < 10 ^ k \<Longrightarrow> 1 \<le> k \<Longrightarrow> length (toString n) \<le> k"
proof (induction n arbitrary: k rule: toString.induct)
  case (1 n)
  show ?case
  proof (cases "n < 10")
    case True
    then show ?thesis using 1(3) by (subst toString.simps) simp
  next
    case False
    obtain j where k: "k = Suc j" using 1(3) by (cases k) auto
    have "j \<noteq> 0" using False 1(2) k by (cases j) auto
    then have j1: "1 \<le> j" by simp
    have "n div 10 < 10 ^ j" using 1(2) k by (simp add: less_mult_imp_div_less mult.commute)
    then have "length (toString (n div 10)) \<le> j" using 1(1) [OF False _ j1] by simp
    then show ?thesis using False k by (subst toString.simps) simp
  qed
qed

lemma secLoop_read:
  "dm = digitMap \<Longrightarrow> len = length numStr \<Longrightarrow> len \<le> 4 \<Longrightarrow> list_all isDigit numStr \<Longrightarrow>
   foldl readStep s0 result = (h, t, a, c) \<Longrightarrow> (i < len \<Longrightarrow> c = 0) \<Longrightarrow>
   \<exists>a' c'. foldl readStep s0 (secLoop dm numStr len i result zeroFlag) = (h, t, a', c') \<and>
     a' + c' = a + c + digitsValue (drop i numStr)"
proof (induction dm numStr len i result zeroFlag arbitrary: a c rule: secLoop.induct)
  case (1 dm numStr len i result zeroFlag)
  note dm = 1(3) and len = 1(4) and le4 = 1(5) and dig = 1(6) and st = 1(7) and cz = 1(8)
  show ?case
  proof (cases "i < len")
    case False
    then have "drop i numStr = []" using len by simp
    then show ?thesis using False st by (subst secLoop.simps) (simp add: digitsValue_def)
  next
    case True
    let ?d = "numStr ! i" and ?k = "len - 1 - i"
    have c0: "c = 0" using cz True by simp
    have dr: "drop i numStr = ?d # drop (i + 1) numStr"
      using True len by (simp add: Cons_nth_drop_Suc)
    have lk: "length (drop (i + 1) numStr) = ?k" using len by simp
    have dv: "digitsValue (drop i numStr) = (?d - 48) * 10 ^ ?k + digitsValue (drop (i + 1) numStr)"
      unfolding dr using digitsValue_Cons [of ?d "drop (i + 1) numStr"] lk by simp
    have isd: "isDigit ?d" using dig True len by (simp add: list_all_length)
    have k3: "?k \<le> 3" using le4 by simp
    show ?thesis
    proof (cases "?d = 48")
      case z: True
      have "\<exists>a' c'. foldl readStep s0 (secLoop dm numStr len (i + 1) result True) = (h, t, a', c') \<and>
          a' + c' = a + c + digitsValue (drop (i + 1) numStr)"
        using 1(1) [OF True refl refl z dm len le4 dig st] c0 by simp
      then show ?thesis using True z dv by (subst secLoop.simps) simp
    next
      case nz: False
      let ?pre = "(if zeroFlag \<and> result \<noteq> [] then result @ [LING] else result)"
      let ?r = "?pre @ dm ?d @ units ?k"
      have s1: "foldl readStep s0 ?pre = (h, t, a, 0)" using st c0 by (simp add: read_LING)
      have s2: "foldl readStep s0 (?pre @ dm ?d) = (h, t, a, ?d - 48)"
        using s1 read_digitMap [OF isd] dm by simp
      have s3: "foldl readStep s0 ?r =
          (if ?k = 0 then (h, t, a, ?d - 48) else (h, t, a + (?d - 48) * 10 ^ ?k, 0))"
        using s2 read_units [OF k3, of h t a "?d - 48"] by (simp del: foldl_append add: foldl_append [of readStep s0 "?pre @ dm ?d" "units ?k", simplified])
      have step: "secLoop dm numStr len i result zeroFlag = secLoop dm numStr len (i + 1) ?r False"
        using True nz by (subst secLoop.simps) (simp add: Let_def)
      let ?c = "if ?k = 0 then ?d - 48 else 0"
      let ?a = "if ?k = 0 then a else a + (?d - 48) * 10 ^ ?k"
      have s4: "foldl readStep s0 ?r = (h, t, ?a, ?c)" using s3 by simp
      have cz': "i + 1 < len \<Longrightarrow> ?c = 0" by simp
      obtain a' c' where
        r: "foldl readStep s0 (secLoop dm numStr len (i + 1) ?r False) = (h, t, a', c')"
        and v: "a' + c' = ?a + ?c + digitsValue (drop (i + 1) numStr)"
        using 1(2) [OF True refl refl nz dm len le4 dig s4 cz'] by blast
      have "a' + c' = a + c + digitsValue (drop i numStr)"
        unfolding v dv using c0 by simp
      then show ?thesis unfolding step using r by blast
    qed
  qed
qed

lemma convertSection_read:
  assumes "0 < n" "n \<le> 9999"
  shows "\<exists>a' c'. foldl readStep (h, t, 0, 0) (convertSection n) = (h, t, a', c') \<and> a' + c' = n"
proof -
  have "n < 10 ^ 4" using assms(2) by simp
  then have l4: "length (toString n) \<le> 4" by (rule toString_length) simp
  have d: "list_all isDigit (toString n)" using toString_digits by simp
  have "foldl readStep (h, t, 0, 0) [] = (h, t, 0, 0)" by simp
  from secLoop_read [OF refl refl l4 d this, of 0 False]
  show ?thesis using assms(1)
    by (simp add: convertSection_def convertSectionWith_def Let_def digitsValue_toString)
qed


lemma groupText_read_high:
  assumes "1 \<le> u" "u \<le> 3"
  shows "foldl readStep (h, t, 0, 0) (groupText num u) =
           (h, t + (num mod 10000) * 10000 ^ u, 0, 0)"
proof (cases "0 < num mod 10000")
  case True
  have "num mod 10000 \<le> 9999" using mod_less_divisor [of 10000 num] by simp
  then obtain a' c' where
    r: "foldl readStep (h, t, 0, 0) (convertSection (num mod 10000)) = (h, t, a', c')"
    and v: "a' + c' = num mod 10000"
    using convertSection_read [OF True, of h t] by blast
  have l: "foldl readStep (h, t, 0, 0) [LING] = (h, t, 0, 0)" by (simp add: read_LING)
  have "foldl readStep (h, t, 0, 0) (convertSection (num mod 10000) @ bigUnits u) =
      (h, t + (num mod 10000) * 10000 ^ u, 0, 0)"
    using r v read_bigUnits [OF assms, of h t a' c'] by simp
  then show ?thesis using True l by (simp add: groupText_def Let_def)
next
  case False
  then show ?thesis using read_bigUnits [OF assms, of h t 0 0]
    by (simp add: groupText_def Let_def)
qed

lemma groupText_read_low:
  "\<exists>a' c'. foldl readStep (h, t, 0, 0) (groupText num 0) = (h, t, a', c') \<and>
     a' + c' = num mod 10000"
proof (cases "0 < num mod 10000")
  case True
  have "num mod 10000 \<le> 9999" using mod_less_divisor [of 10000 num] by simp
  then obtain a' c' where
    r: "foldl readStep (h, t, 0, 0) (convertSection (num mod 10000)) = (h, t, a', c')"
    and v: "a' + c' = num mod 10000"
    using convertSection_read [OF True, of h t] by blast
  have l: "foldl readStep (h, t, 0, 0) [LING] = (h, t, 0, 0)" by (simp add: read_LING)
  show ?thesis using True l r v by (simp add: groupText_def Let_def bigUnits_def)
next
  case False
  then show ?thesis by (simp add: groupText_def Let_def bigUnits_def)
qed

lemma convLoop_read_high:
  "1 \<le> u \<Longrightarrow> num * 10000 ^ u < 10000 ^ 4 \<Longrightarrow>
   foldl readStep (h, t, 0, 0) (convLoop num u []) = (h, t + num * 10000 ^ u, 0, 0)"
proof (induction num arbitrary: u t rule: less_induct)
  case (less num)
  show ?case
  proof (cases "0 < num")
    case False
    then show ?thesis by (simp add: convLoop_zero)
  next
    case True
    let ?nx = "num div 10000" and ?m = "num mod 10000"
    have "(10000::nat) ^ u \<le> num * 10000 ^ u" using True by simp
    then have "(10000::nat) ^ u < 10000 ^ 4" using less(3) by (rule le_less_trans)
    then have "u < 4" by (rule power_less_imp_less_exp [rotated]) simp
    then have u3: "u \<le> 3" by simp
    have num: "num = ?nx * 10000 + ?m" by simp
    have "(x * 10000 + m) * 10000 ^ u = x * 10000 ^ (u + 1) + m * 10000 ^ u" for x m :: nat
      by (simp add: algebra_simps)
    from this [of ?nx ?m]
    have split: "num * 10000 ^ u = ?nx * 10000 ^ (u + 1) + ?m * 10000 ^ u"
      by (simp only: div_mult_mod_eq)
    then have b: "?nx * 10000 ^ (u + 1) < 10000 ^ 4" using less(3) by linarith
    have lt: "?nx < num" using True by simp
    have hi: "foldl readStep (h, t, 0, 0) (convLoop ?nx (u + 1) []) =
        (h, t + ?nx * 10000 ^ (u + 1), 0, 0)"
      using less(1) [OF lt _ b, of t] by simp
    have "foldl readStep (h, t, 0, 0) (convLoop num u []) =
        (h, t + ?nx * 10000 ^ (u + 1) + ?m * 10000 ^ u, 0, 0)"
      unfolding convLoop_unfold [OF True] foldl_append hi
      by (rule groupText_read_high [OF less(2) u3])
    then show ?thesis using split by simp
  qed
qed

lemma convLoop_read_low:
  assumes "num < 10000 ^ 3"
  shows "\<exists>t' a' c'. foldl readStep (h, t, 0, 0) (convLoop num 0 []) = (h, t', a', c') \<and>
           t' + a' + c' = t + num"
proof (cases "0 < num")
  case False
  then show ?thesis by (simp add: convLoop_zero)
next
  case True
  let ?nx = "num div 10000" and ?m = "num mod 10000"
  have num: "num = ?nx * 10000 + ?m" by simp
  have "?nx * 10000 \<le> num" by simp
  then have "?nx * 10000 ^ 1 < 10000 ^ 4" using assms by simp
  then have hi: "foldl readStep (h, t, 0, 0) (convLoop ?nx (0 + 1) []) =
      (h, t + ?nx * 10000 ^ 1, 0, 0)"
    using convLoop_read_high [of 1 ?nx h t] by simp
  obtain a' c' where
    r: "foldl readStep (h, t + ?nx * 10000 ^ 1, 0, 0) (groupText num 0) =
        (h, t + ?nx * 10000 ^ 1, a', c')"
    and v: "a' + c' = ?m"
    using groupText_read_low [of h "t + ?nx * 10000 ^ 1" num] by blast
  have "foldl readStep (h, t, 0, 0) (convLoop num 0 []) = (h, t + ?nx * 10000 ^ 1, a', c')"
    unfolding convLoop_unfold [OF True] foldl_append hi by (rule r)
  moreover have "t + ?nx * 10000 ^ 1 + a' + c' = t + num" using v num by simp
  ultimately show ?thesis by blast
qed

lemma convertInteger_read:
  assumes "num \<le> 999999999999"
  shows "foldl readStep (0, 0, 0, 0) (convertInteger num @ [YUAN]) = (num * 100, 0, 0, 0)"
proof (cases "0 < num")
  case False
  then show ?thesis by (simp add: convertInteger_def read_LING read_marks)
next
  case True
  have "num < 10000 ^ 3" using assms by simp
  then obtain t' a' c' where
    r: "foldl readStep (0, 0, 0, 0) (convLoop num 0 []) = (0, t', a', c')"
    and v: "t' + a' + c' = 0 + num"
    using convLoop_read_low [of num 0 0] by blast
  show ?thesis using r v by (simp add: convertInteger_raw [OF True] read_marks)
qed


lemma takeWhile_dot_digits:
  assumes "list_all isDigit ip"
  shows "takeWhile (\<lambda>c. c \<noteq> 46) (ip @ 46 # fp) = ip"
    "dropWhile (\<lambda>c. c \<noteq> 46) (ip @ 46 # fp) = 46 # fp"
proof -
  have "\<And>c. c \<in> set ip \<Longrightarrow> c \<noteq> 46" using assms isDigit_plain by (auto simp: list_all_iff)
  then show "takeWhile (\<lambda>c. c \<noteq> 46) (ip @ 46 # fp) = ip"
    "dropWhile (\<lambda>c. c \<noteq> 46) (ip @ 46 # fp) = 46 # fp"
    by (simp_all add: takeWhile_append2 dropWhile_append2)
qed

lemma amount_parts:
  assumes m: "matchesAmount s" and pos: "0 < parseFloat_x100 s"
  shows "\<exists>ip fp. ip \<noteq> [] \<and> list_all isDigit ip \<and> list_all isDigit fp \<and> length fp \<le> 2 \<and>
           parts0 s = ip \<and> parts1 s = fp \<and>
           parseFloat_x100 s = int (digitsValue ip * 100 + digitsValue (take 2 (fp @ [48, 48])))"
proof -
  have ne: "s \<noteq> []" using m by (rule matchesAmount_nonempty)
  have nm: "hd s \<noteq> 45" using parseFloat_x100_minus [OF ne] pos by auto
  let ?ip = "takeWhile isDigit s" and ?rest = "dropWhile isDigit s"
  have s: "s = ?ip @ ?rest" by simp
  have dip: "list_all isDigit ?ip" by (simp add: list_all_iff) (meson set_takeWhileD)
  have mm: "?rest = [] \<or> (hd ?rest = 46 \<and> length (tl ?rest) \<le> 2 \<and> list_all isDigit (tl ?rest))"
    using m nm by (simp add: matchesAmount_def Let_def)
  have nip: "?ip \<noteq> []" using m nm by (simp add: matchesAmount_def Let_def)
  have v: "parseFloat_x100 s =
      int (digitsValue ?ip * 100 + digitsValue (take 2 ((if ?rest = [] then [] else tl ?rest) @ [48, 48])))"
    using nm by (simp add: parseFloat_x100_def Let_def)
  show ?thesis
  proof (cases "?rest = []")
    case True
    then have d: "list_all isDigit s" by (simp add: list_all_iff)
    have p: "parts0 s = ?ip" "parts1 s = []"
      by (simp_all add: parts0_def parts1_def digits_plain(2,4,5) [OF d])
    have v': "parseFloat_x100 s =
        int (digitsValue ?ip * 100 + digitsValue (take 2 ([] @ [48, 48])))"
      using v by (simp only: True simp_thms if_True)
    have e: "list_all isDigit []" "length ([]::nat list) \<le> 2" by simp_all
    show ?thesis using nip dip e p v'
      by - (rule exI [of _ ?ip], rule exI [of _ "[]"], intro conjI, assumption+)
  next
    case False
    let ?fp = "tl ?rest"
    have r: "?rest = 46 # ?fp" using False mm by (cases ?rest) auto
    have dfp: "list_all isDigit ?fp" "length ?fp \<le> 2" using False mm by blast+
    have s': "s = ?ip @ 46 # ?fp" using s r by simp
    have p0: "parts0 s = ?ip"
      unfolding parts0_def by (subst s') (rule takeWhile_dot_digits(1) [OF dip])
    have "dropWhile (\<lambda>c. c \<noteq> 46) s = 46 # ?fp"
      by (subst s') (rule takeWhile_dot_digits(2) [OF dip])
    then have p1: "parts1 s = ?fp"
      using digits_plain(4) [OF dfp(1)] by (simp add: parts1_def Let_def)
    have v': "parseFloat_x100 s =
        int (digitsValue ?ip * 100 + digitsValue (take 2 (?fp @ [48, 48])))"
      using v by (simp only: False simp_thms if_False)
    show ?thesis using nip dip dfp p0 p1 v'
      by - (rule exI [of _ ?ip], rule exI [of _ ?fp], intro conjI, assumption+)
  qed
qed

text \<open>Where \<open>parseInt\<close> is called, its argument is a non-empty string of digits.\<close>

lemma parseInt_argument:
  assumes "matchesAmount s" "0 < parseFloat_x100 s"
  shows "parts0 s \<noteq> [] \<and> list_all isDigit (parts0 s)"
  using amount_parts [OF assms] by auto

lemma fraction_cases:
  assumes "list_all isDigit fp" "length fp \<le> 2"
  shows "fp = [] \<or> (\<exists>j. fp = [j] \<and> isDigit j) \<or> (\<exists>j f. fp = [j, f] \<and> isDigit j \<and> isDigit f)"
proof (cases fp)
  case Nil
  then show ?thesis by simp
next
  case (Cons j r)
  show ?thesis
  proof (cases r)
    case Nil
    then show ?thesis using Cons assms by simp
  next
    case (Cons f q)
    then have "q = []" using assms(2) \<open>fp = j # r\<close> by simp
    then show ?thesis using Cons \<open>fp = j # r\<close> assms(1) by simp
  qed
qed

lemma read_fraction:
  assumes "isDigit j" "isDigit f"
  shows "foldl readStep (h, 0, 0, 0) (digitMap j @ [JIAO] @ digitMap f @ [FEN]) =
           (h + (j - 48) * 10 + (f - 48), 0, 0, 0)"
    "foldl readStep (h, 0, 0, 0) (digitMap j @ [JIAO]) = (h + (j - 48) * 10, 0, 0, 0)"
    "foldl readStep (h, 0, 0, 0) ([LING] @ digitMap f @ [FEN]) = (h + (f - 48), 0, 0, 0)"
  by (simp_all add: read_digitMap [OF assms(1)] read_digitMap [OF assms(2)] read_marks read_LING)

lemma padLoop_values: "padLoop [j] = [j, 48]" "padLoop [j, f] = [j, f]"
  by (simp_all add: padLoop.simps)

lemma read_fraction_all:
  assumes "isDigit j" "isDigit f"
  shows "foldl readStep (h, 0, 0, 0)
           (if j \<noteq> 48 then
              (if f \<noteq> 48 then digitMap j @ [JIAO] @ digitMap f @ [FEN] else digitMap j @ [JIAO])
            else (if f \<noteq> 48 then [LING] @ digitMap f @ [FEN] else [])) =
         (h + (j - 48) * 10 + (f - 48), 0, 0, 0)"
proof (cases "j = 48")
  case j: True
  show ?thesis
  proof (cases "f = 48")
    case True
    then show ?thesis using j by simp
  next
    case False
    then show ?thesis using j read_fraction(3) [OF assms, of h] by simp
  qed
next
  case j: False
  show ?thesis
  proof (cases "f = 48")
    case True
    then show ?thesis using j read_fraction(2) [OF assms, of h] by simp
  next
    case False
    then show ?thesis using j read_fraction(1) [OF assms, of h] by simp
  qed
qed

lemma digitsValue_two: "digitsValue [x, y] = (x - 48) * 10 + (y - 48)"
  by (simp add: digitsValue_def)

lemma readAmount_after:
  "foldl readStep (0, 0, 0, 0) r = st \<Longrightarrow> readAmount (r @ tail) = fst (foldl readStep st tail)"
  by (simp add: readAmount_def)

lemma readAmount_convert:
  assumes m: "matchesAmount (stripSeparators input)"
    and lo: "0 \<le> parseFloat_x100 (stripSeparators input)"
    and hi: "parseFloat_x100 (stripSeparators input) \<le> 99999999999999"
  shows "int (readAmount (convertToChequeFormat input)) = parseFloat_x100 (stripSeparators input)"
proof (cases "parseFloat_x100 (stripSeparators input) = 0")
  case True
  have "readAmount ZERO_AMOUNT = 0"
    by (simp add: ZERO_AMOUNT_def readAmount_def read_LING read_marks)
  then show ?thesis using True m matchesAmount_nonempty [OF m]
    by (simp add: convertToChequeFormat_def Let_def)
next
  case False
  let ?s = "stripSeparators input"
  have pos: "0 < parseFloat_x100 ?s" using False lo by simp
  obtain ip fp where dip: "list_all isDigit ip" and dfp: "list_all isDigit fp" "length fp \<le> 2"
    and p0: "parts0 ?s = ip" and p1: "parts1 ?s = fp"
    and v: "parseFloat_x100 ?s = int (digitsValue ip * 100 + digitsValue (take 2 (fp @ [48, 48])))"
    using amount_parts [OF m pos] by blast
  define I where "I = digitsValue ip"
  define R where "R = convertInteger I @ [YUAN]"
  let ?T = "\<lambda>j f. if j \<noteq> 48 then
              (if f \<noteq> 48 then digitMap j @ [JIAO] @ digitMap f @ [FEN] else digitMap j @ [JIAO])
            else (if f \<noteq> 48 then [LING] @ digitMap f @ [FEN] else [])"
  have pi: "parseInt (parts0 ?s) = I"
    by (simp add: parseInt_def p0 digits_plain(2) [OF dip] I_def)
  have "I * 100 \<le> 99999999999999" using hi v unfolding I_def by linarith
  then have I: "I \<le> 999999999999" by simp
  have ri: "foldl readStep (0, 0, 0, 0) R = (I * 100, 0, 0, 0)"
    unfolding R_def by (rule convertInteger_read [OF I])
  have out: "convertToChequeFormat input =
      R @ (if fp = [] then [ZHENG] else ?T (padLoop fp ! 0) (padLoop fp ! 1))"
    using m matchesAmount_nonempty [OF m] pos hi
    by (simp add: convertToChequeFormat_def Let_def pi p1 R_def)
  have z: "isDigit 48" by (simp add: isDigit_def)
  have "readAmount (convertToChequeFormat input) = I * 100 + digitsValue (take 2 (fp @ [48, 48]))"
    using fraction_cases [OF dfp]
  proof (elim disjE exE conjE)
    assume fp: "fp = []"
    have "readAmount (R @ [ZHENG]) = I * 100"
      unfolding readAmount_after [OF ri] by (simp add: read_marks)
    then show ?thesis unfolding out fp by (simp add: digitsValue_two)
  next
    fix j assume fp: "fp = [j]" and j: "isDigit j"
    have "readAmount (R @ ?T j 48) = I * 100 + (j - 48) * 10 + (48 - 48)"
      unfolding readAmount_after [OF ri] read_fraction_all [OF j z] by simp
    then show ?thesis unfolding out fp by (simp add: padLoop_values digitsValue_two split: if_splits)
  next
    fix j f assume fp: "fp = [j, f]" and j: "isDigit j" and f: "isDigit f"
    have "readAmount (R @ ?T j f) = I * 100 + (j - 48) * 10 + (f - 48)"
      unfolding readAmount_after [OF ri] read_fraction_all [OF j f] by simp
    then show ?thesis unfolding out fp by (simp add: padLoop_values digitsValue_two split: if_splits)
  qed
  then show ?thesis using v unfolding I_def by simp
qed

text \<open>
  C9: two inputs that pass the pattern and whose parsed values are distinct, not negative
  and at most 999,999,999,999.99 (in hundredths: 99999999999999) get distinct answers
  from \<open>convertToChequeFormat\<close>.
\<close>

theorem distinct_amounts_distinct_answers:
  assumes "matchesAmount (stripSeparators a)" "matchesAmount (stripSeparators b)"
    and "0 \<le> parseFloat_x100 (stripSeparators a)"
    and "parseFloat_x100 (stripSeparators a) < parseFloat_x100 (stripSeparators b)"
    and "parseFloat_x100 (stripSeparators b) \<le> 99999999999999"
  shows "convertToChequeFormat a \<noteq> convertToChequeFormat b"
proof
  assume eq: "convertToChequeFormat a = convertToChequeFormat b"
  have "int (readAmount (convertToChequeFormat a)) = parseFloat_x100 (stripSeparators a)"
    using assms by (intro readAmount_convert) simp_all
  moreover have "int (readAmount (convertToChequeFormat b)) = parseFloat_x100 (stripSeparators b)"
    using assms by (intro readAmount_convert) simp_all
  ultimately show False using eq assms(4) by simp
qed

theorem distinct_amounts_distinct_answers_witness:
  "matchesAmount (stripSeparators [49, 48, 48, 48, 48, 48, 48, 48, 48]) \<and>
   matchesAmount (stripSeparators [49, 48, 48, 48, 49, 48, 48, 48, 48, 46, 53]) \<and>
   parseFloat_x100 (stripSeparators [49, 48, 48, 48, 48, 48, 48, 48, 48]) = 10000000000 \<and>
   parseFloat_x100 (stripSeparators [49, 48, 48, 48, 49, 48, 48, 48, 48, 46, 53]) = 10001000050 \<and>
   convertToChequeFormat [49, 48, 48, 48, 48, 48, 48, 48, 48] \<noteq>
     convertToChequeFormat [49, 48, 48, 48, 49, 48, 48, 48, 48, 46, 53]"
  using distinct_amounts_distinct_answers
    [of "[49, 48, 48, 48, 48, 48, 48, 48, 48]" "[49, 48, 48, 48, 49, 48, 48, 48, 48, 46, 53]"]
  by (simp add: stripSeparators_def isSpace_def matchesAmount_def isDigit_def
      parseFloat_x100_def digitsValue_def)

end
